theory Spec2Isabelle
  imports Main "HOL-Library.Word" "HOL-Library.Sublist"
begin

section \<open>Data model\<close>

text \<open>
  Python \<open>bytes\<close> are lists of 8-bit words, node identifiers are Python's unbounded
  integers, and every exception the sources can raise is a value of \<open>error\<close>.
  \<open>ValueError\<close> carries its message: \<open>AACS.decrypt\<close> raises
  \<open>ValueError('Separator not found')\<close>, which the spec calls SeparatorNotFound.
\<close>

type_synonym bytes = "8 word list"

datatype error =
    KeyNotFound
  | ValueError string
  | IndexError
  | KeyError
  | ZeroDivisionError
  | OverflowError

definition SeparatorNotFound :: error where
  "SeparatorNotFound = ValueError ''Separator not found''"

definition bytes_of :: "string \<Rightarrow> bytes" where
  "bytes_of s = map of_char s"

definition TAG_VALID :: bytes where
  "TAG_VALID = bytes_of ''is_valid_aacskey''"

definition TAG_SEPARATOR :: bytes where
  "TAG_SEPARATOR = bytes_of ''END_OF_KEYS''"

section \<open>encryption.py\<close>

text \<open>
  \<open>add_padding(m, bit_size=128)\<close>: \<open>l % (bit_size//8)\<close> raises ZeroDivisionError for
  a block of zero bytes, and \<open>(p - 1).to_bytes()\<close> raises OverflowError unless
  \<open>0 \<le> p - 1 \<le> 255\<close>.
\<close>

definition add_padding :: "bytes \<Rightarrow> int \<Rightarrow> error + bytes" where
  "add_padding m bit_size =
     (let l = int (length m); bs = bit_size div 8 in
      if bs = 0 then Inl ZeroDivisionError
      else
        let p = bs - (l mod bs) in
        if p - 1 < 0 \<or> 255 < p - 1 then Inl OverflowError
        else Inr (m @ replicate (nat p) (word_of_int (p - 1))))"

text \<open>
  \<open>remove_padding(m)\<close>: \<open>m[-1]\<close> raises IndexError on the empty byte string; the slice
  \<open>m[:-p]\<close> with \<open>p \<ge> 1\<close> keeps the first \<open>len(m) - p\<close> bytes, none when \<open>p\<close>
  exceeds the length.
\<close>

definition remove_padding :: "bytes \<Rightarrow> error + bytes" where
  "remove_padding m =
     (if m = [] then Inl IndexError
      else
        let v = unat (last m); p = v + 1 in
        Inr (take (length m - p) m))"

text \<open>
  The block cipher is the \<open>cryptography\<close> library, which is not part of the
  repository: it is a parameter. \<open>cbc_encrypt key iv plaintext\<close> and
  \<open>cbc_decrypt key iv ciphertext\<close> stand for the library's AES-CBC encryptor and
  decryptor, which may raise. \<open>AES_encrypt\<close> draws its IV from \<open>os.urandom(16)\<close>;
  the drawn value is the argument \<open>iv\<close>.
\<close>

record cipher =
  cbc_encrypt :: "bytes \<Rightarrow> bytes \<Rightarrow> bytes \<Rightarrow> error + bytes"
  cbc_decrypt :: "bytes \<Rightarrow> bytes \<Rightarrow> bytes \<Rightarrow> error + bytes"

definition AES_encrypt :: "cipher \<Rightarrow> bytes \<Rightarrow> bytes \<Rightarrow> bytes \<Rightarrow> error + (bytes \<times> bytes)" where
  "AES_encrypt cph iv key plaintext =
     (case cbc_encrypt cph key iv plaintext of
        Inl e \<Rightarrow> Inl e
      | Inr ciphertext \<Rightarrow> Inr (iv, ciphertext))"

definition AES_decrypt :: "cipher \<Rightarrow> bytes \<Rightarrow> bytes \<Rightarrow> bytes \<Rightarrow> error + bytes" where
  "AES_decrypt cph key iv ciphertext = cbc_decrypt cph key iv ciphertext"

section \<open>tree.py\<close>

definition get_parent :: "int \<Rightarrow> int" where
  "get_parent node_id = node_id div 2"

definition get_sibling :: "int \<Rightarrow> int" where
  "get_sibling node_id = (if node_id mod 2 \<noteq> 0 then node_id - 1 else node_id + 1)"

text \<open>
  The loop of \<open>get_path_to_root\<close>. It runs forever on a node id below 1, so it is a
  partial function: \<open>None\<close> is "does not return".
\<close>

partial_function (option) path_loop :: "int list \<Rightarrow> int \<Rightarrow> int list option" where
  "path_loop path i =
     (if last path \<noteq> 1 then path_loop (path @ [get_parent i]) (get_parent i)
      else Some path)"

definition get_path_to_root :: "int \<Rightarrow> int list option" where
  "get_path_to_root node_id = path_loop [node_id] node_id"

text \<open>
  \<open>ceil(log2(n))\<close> for \<open>n \<ge> 1\<close>, computed on the integers (the source goes through
  a float, which agrees for every tree that fits in memory).
\<close>

function ceil_log2 :: "nat \<Rightarrow> nat" where
  "ceil_log2 n = (if n \<le> 1 then 0 else Suc (ceil_log2 ((n + 1) div 2)))"
  by pat_completeness auto
termination
  by (relation "measure id") auto

record BinaryTree =
  tree_n :: int
  tree_t :: nat
  depth :: nat
  nodes :: "int \<rightharpoonup> bytes"
  first_leaf :: int
  last_leaf :: int

text \<open>
  \<open>BinaryTree.__init__(n)\<close>. \<open>keys i\<close> is the value \<open>get_random_key()\<close> returns when
  the key of node \<open>i\<close> is drawn. \<open>log2\<close> raises ValueError unless \<open>n\<close> is positive.
\<close>

definition BinaryTree_init :: "(int \<Rightarrow> bytes) \<Rightarrow> int \<Rightarrow> error + BinaryTree" where
  "BinaryTree_init keys n =
     (if n \<le> 0 then Inl (ValueError ''math domain error'')
      else
        let t = ceil_log2 (nat n);
            last = 2 ^ (t + 1) - 1
        in Inr \<lparr> tree_n = n, tree_t = t, depth = t + 1,
                 nodes = foldl (\<lambda>m i. m(i \<mapsto> keys i)) Map.empty [1..last],
                 first_leaf = 2 ^ t, last_leaf = last \<rparr>)"

definition get_leaves :: "'a BinaryTree_scheme \<Rightarrow> int list" where
  "get_leaves tr = [first_leaf tr..last_leaf tr]"

section \<open>The AACS class\<close>

record AACS = BinaryTree +
  set_S :: "int set"
  set_T :: "int set"
  S_cover :: "int list"

text \<open>
  \<open>__get_S_cover\<close>. The result does not depend on the order in which the set \<open>T\<close> is
  iterated, since the cover is collected in a set and sorted. It returns only if
  every path to the root does.
\<close>

definition path_siblings :: "int list \<Rightarrow> int set" where
  "path_siblings path = get_sibling ` {j \<in> set path. j \<noteq> 1}"

definition get_S_cover :: "'a AACS_scheme \<Rightarrow> int list option" where
  "get_S_cover st =
     (if int (card (set_S st)) = tree_n st then Some (sorted_list_of_set {1})
      else if \<exists>i \<in> set_T st. get_path_to_root i = None then None
      else Some (sorted_list_of_set
                  (\<Union>i \<in> set_T st. path_siblings (the (get_path_to_root i)))))"

definition AACS_init :: "(int \<Rightarrow> bytes) \<Rightarrow> int \<Rightarrow> (error + AACS) option" where
  "AACS_init keys n =
     (case BinaryTree_init keys n of
        Inl e \<Rightarrow> Some (Inl e)
      | Inr tr \<Rightarrow>
          let st = BinaryTree.extend tr
                     (AACS.fields (set (get_leaves tr)) {} [])
          in (case get_S_cover st of
                None \<Rightarrow> None
              | Some cover \<Rightarrow> Some (Inr (st\<lparr>S_cover := cover\<rparr>))))"

definition revoke :: "AACS \<Rightarrow> int \<Rightarrow> (AACS \<times> bool) option" where
  "revoke st i =
     (if i \<in> set_S st then
        let st' = st\<lparr>set_S := set_S st - {i}, set_T := insert i (set_T st)\<rparr>
        in (case get_S_cover st' of
              None \<Rightarrow> None
            | Some cover \<Rightarrow> Some (st'\<lparr>S_cover := cover\<rparr>, True))
      else Some (st, False))"

text \<open>
  \<open>__get_known_keys(node_id)\<close>: the tuple is built in full, so a node of the path
  without a key raises KeyError before any key is used.
\<close>

fun lookup_keys :: "(int \<rightharpoonup> bytes) \<Rightarrow> int list \<Rightarrow> error + bytes list" where
  "lookup_keys nd [] = Inr []"
| "lookup_keys nd (i # is) =
     (case nd i of
        None \<Rightarrow> Inl KeyError
      | Some k \<Rightarrow> (case lookup_keys nd is of Inl e \<Rightarrow> Inl e | Inr ks \<Rightarrow> Inr (k # ks)))"

definition get_known_keys :: "'a AACS_scheme \<Rightarrow> int \<Rightarrow> (error + bytes list) option" where
  "get_known_keys st node_id =
     (case get_path_to_root node_id of
        None \<Rightarrow> None
      | Some path \<Rightarrow> Some (lookup_keys (nodes st) path))"

text \<open>
  \<open>encrypt(m)\<close>. \<open>rnd\<close> is the sequence of values \<open>os.urandom(16)\<close> returns during
  the call: \<open>rnd 0\<close> is the content key \<open>k\<close>, \<open>rnd (j + 1)\<close> the IV of the key block
  of the \<open>j\<close>-th cover node, and the next one the IV of the content.
\<close>

fun encrypt_keys ::
  "cipher \<Rightarrow> (nat \<Rightarrow> bytes) \<Rightarrow> (int \<rightharpoonup> bytes) \<Rightarrow> bytes \<Rightarrow> nat \<Rightarrow> int list \<Rightarrow> error + bytes list" where
  "encrypt_keys cph rnd nd k j [] = Inr []"
| "encrypt_keys cph rnd nd k j (u # us) =
     (case nd u of
        None \<Rightarrow> Inl KeyError
      | Some k_u \<Rightarrow>
          (case AES_encrypt cph (rnd j) k_u (TAG_VALID @ k) of
             Inl e \<Rightarrow> Inl e
           | Inr (iv, ct) \<Rightarrow>
               (case encrypt_keys cph rnd nd k (Suc j) us of
                  Inl e \<Rightarrow> Inl e
                | Inr encrypted_keys \<Rightarrow> Inr ((iv @ ct) # encrypted_keys))))"

definition encrypt :: "cipher \<Rightarrow> (nat \<Rightarrow> bytes) \<Rightarrow> 'a AACS_scheme \<Rightarrow> bytes \<Rightarrow> error + bytes" where
  "encrypt cph rnd st m =
     (let k = rnd 0 in
      case encrypt_keys cph rnd (nodes st) k 1 (S_cover st) of
        Inl e \<Rightarrow> Inl e
      | Inr encrypted_keys \<Rightarrow>
          (case add_padding m 128 of
             Inl e \<Rightarrow> Inl e
           | Inr pm \<Rightarrow>
               (case AES_encrypt cph (rnd (Suc (length (S_cover st)))) k pm of
                  Inl e \<Rightarrow> Inl e
                | Inr (iv, ct) \<Rightarrow> Inr (concat encrypted_keys @ TAG_SEPARATOR @ iv @ ct))))"

text \<open>
  \<open>decrypt(node_id, c)\<close>. The inner \<open>for\<close> loop tries the known keys in path order
  and stops at the first plaintext that starts with the validity marker.
\<close>

definition ENCRYPTED_KEY_SIZE :: nat where
  "ENCRYPTED_KEY_SIZE = 384 div 8"

definition IV_SIZE :: nat where
  "IV_SIZE = 128 div 8"

fun try_keys :: "cipher \<Rightarrow> bytes \<Rightarrow> bytes list \<Rightarrow> error + bytes option" where
  "try_keys cph c_u [] = Inr None"
| "try_keys cph c_u (k_u # ks) =
     (case AES_decrypt cph k_u (take IV_SIZE c_u) (drop IV_SIZE c_u) of
        Inl e \<Rightarrow> Inl e
      | Inr k \<Rightarrow>
          if prefix TAG_VALID k then Inr (Some (drop (length TAG_VALID) k))
          else try_keys cph c_u ks)"

text \<open>
  The \<open>while\<close> loop. The pair of \<open>keep_searching\<close> and \<open>k\<close> is one value: \<open>None\<close>
  while the key is still searched (the source's \<open>k\<close> then holds a rejected plaintext
  that is never read), \<open>Some k\<close> once it is found. The loop returns the key, the flag
  \<open>separator_found\<close> and what is left of \<open>c\<close>.
\<close>

function decrypt_loop ::
  "cipher \<Rightarrow> 'a AACS_scheme \<Rightarrow> int \<Rightarrow> bytes option \<Rightarrow> bytes
     \<Rightarrow> (error + bytes option \<times> bool \<times> bytes) option" where
  "decrypt_loop cph st node_id k c =
     (if c = [] then Some (Inr (k, False, c))
      else if prefix TAG_SEPARATOR c then Some (Inr (k, True, c))
      else
        (case k of
           Some _ \<Rightarrow> decrypt_loop cph st node_id k (drop ENCRYPTED_KEY_SIZE c)
         | None \<Rightarrow>
             (case get_known_keys st node_id of
                None \<Rightarrow> None
              | Some (Inl e) \<Rightarrow> Some (Inl e)
              | Some (Inr ks) \<Rightarrow>
                  (case try_keys cph (take ENCRYPTED_KEY_SIZE c) ks of
                     Inl e \<Rightarrow> Some (Inl e)
                   | Inr k' \<Rightarrow> decrypt_loop cph st node_id k' (drop ENCRYPTED_KEY_SIZE c)))))"
  by pat_completeness auto
termination
  by (relation "measure (\<lambda>(cph, st, node_id, k, c). length c)")
     (auto simp: ENCRYPTED_KEY_SIZE_def)

definition decrypt :: "cipher \<Rightarrow> 'a AACS_scheme \<Rightarrow> int \<Rightarrow> bytes \<Rightarrow> (error + bytes) option" where
  "decrypt cph st node_id c =
     (case decrypt_loop cph st node_id None c of
        None \<Rightarrow> None
      | Some (Inl e) \<Rightarrow> Some (Inl e)
      | Some (Inr (k, separator_found, c')) \<Rightarrow>
          (case k of
             None \<Rightarrow> Some (Inl KeyNotFound)
           | Some key \<Rightarrow>
               if \<not> separator_found then Some (Inl SeparatorNotFound)
               else
                 let c'' = drop (length TAG_SEPARATOR) c' in
                 (case AES_decrypt cph key (take 16 c'') (drop 16 c'') of
                    Inl e \<Rightarrow> Some (Inl e)
                  | Inr p \<Rightarrow> Some (remove_padding p))))"

text \<open>
  What the wire format needs of the cipher: for a 16-byte key, a 16-byte IV and a
  plaintext of whole blocks, the CBC encryptor returns a ciphertext of the same length.
\<close>

definition cbc_encrypts :: "cipher \<Rightarrow> bool" where
  "cbc_encrypts cph \<longleftrightarrow>
     (\<forall>key iv p. length key = 16 \<and> length iv = 16 \<and> length p mod 16 = 0 \<longrightarrow>
        (\<exists>c. cbc_encrypt cph key iv p = Inr c \<and> length c = length p))"

text \<open>
  What the last step of \<open>decrypt\<close> needs of the cipher when nothing follows the
  IV: for a 16-byte key and a 16-byte IV, the CBC decryptor returns the empty
  plaintext for the empty ciphertext.
\<close>

definition cbc_decrypts_empty :: "cipher \<Rightarrow> bool" where
  "cbc_decrypts_empty cph \<longleftrightarrow>
     (\<forall>key iv. length key = 16 \<and> length iv = 16 \<longrightarrow> cbc_decrypt cph key iv [] = Inr [])"

section \<open>Engine states\<close>

text \<open>
  The states an engine can be in: the one its constructor builds, and every state a
  returning call of \<open>revoke\<close> leaves behind.
\<close>

inductive reachable :: "(int \<Rightarrow> bytes) \<Rightarrow> AACS \<Rightarrow> bool" for keys :: "int \<Rightarrow> bytes" where
  reachable_init: "AACS_init keys n = Some (Inr st) \<Longrightarrow> reachable keys st"
| reachable_revoke: "reachable keys st \<Longrightarrow> revoke st i = Some (st', b) \<Longrightarrow> reachable keys st'"

text \<open>
  What every engine state satisfies (shown below): the tree is the one the constructor
  built, the valid and the revoked devices split the leaves, and the stored cover is
  the one \<open>__get_S_cover\<close> computes from the sets.
\<close>

definition engine_inv :: "(int \<Rightarrow> bytes) \<Rightarrow> AACS \<Rightarrow> bool" where
  "engine_inv keys st \<longleftrightarrow>
     0 < tree_n st \<and> tree_t st = ceil_log2 (nat (tree_n st)) \<and> depth st = tree_t st + 1 \<and>
     first_leaf st = 2 ^ tree_t st \<and> last_leaf st = 2 ^ (tree_t st + 1) - 1 \<and>
     nodes st = (\<lambda>i. if 1 \<le> i \<and> i \<le> last_leaf st then Some (keys i) else None) \<and>
     set_S st \<union> set_T st = {first_leaf st..last_leaf st} \<and> set_S st \<inter> set_T st = {} \<and>
     get_S_cover st = Some (S_cover st)"

text \<open>
  The key blocks the scan of \<open>decrypt\<close> visits: the strides of 48 bytes from the
  front of the stream, up to the first stride boundary where the stream has ended or
  starts with the separator.
\<close>

function key_blocks :: "bytes \<Rightarrow> bytes list" where
  "key_blocks c =
     (if c = [] \<or> prefix TAG_SEPARATOR c then []
      else take ENCRYPTED_KEY_SIZE c # key_blocks (drop ENCRYPTED_KEY_SIZE c))"
  by pat_completeness auto
termination
  by (relation "measure length") (auto simp: ENCRYPTED_KEY_SIZE_def)

section \<open>Fixtures for the concrete runs\<close>

text \<open>
  A stand-in for AES-CBC that checks its arguments as the library does (a 16-byte key
  and IV, whole blocks) and shifts every byte by the first bytes of the key and the
  IV; node keys and random draws that are easy to tell apart.
\<close>

definition shift_cipher :: cipher where
  "shift_cipher =
     \<lparr> cbc_encrypt = (\<lambda>key iv p.
         if length key = 16 \<and> length iv = 16 \<and> length p mod 16 = 0
         then Inr (map (\<lambda>b. b + hd key + hd iv) p)
         else Inl (ValueError ''cipher'')),
       cbc_decrypt = (\<lambda>key iv c.
         if length key = 16 \<and> length iv = 16 \<and> length c mod 16 = 0
         then Inr (map (\<lambda>b. b - hd key - hd iv) c)
         else Inl (ValueError ''cipher'')) \<rparr>"

definition node_keys :: "int \<Rightarrow> bytes" where
  "node_keys i = replicate 16 (word_of_int i)"

definition draws :: "nat \<Rightarrow> bytes" where
  "draws j = replicate 16 (100 + of_nat j)"

definition engine :: "int \<Rightarrow> AACS" where
  "engine n = (case AACS_init node_keys n of Some (Inr st) \<Rightarrow> st)"

definition revoked :: "AACS \<Rightarrow> int \<Rightarrow> AACS" where
  "revoked st i = (case revoke st i of Some (st', b) \<Rightarrow> st')"

text \<open>
  The stream \<open>encrypt\<close> returns for a message under the stand-in cipher and draws.
\<close>

definition broadcast :: "AACS \<Rightarrow> bytes \<Rightarrow> bytes" where
  "broadcast st m = (case encrypt shift_cipher draws st m of Inr c \<Rightarrow> c | Inl e \<Rightarrow> [])"

declare path_loop.simps [code]

declare ceil_log2.simps [simp del]

declare decrypt_loop.simps [simp del]

declare key_blocks.simps [simp del]

section \<open>Parent and sibling arithmetic\<close>

lemma get_parent_get_sibling: "2 \<le> i \<Longrightarrow> get_parent (get_sibling i) = get_parent i"
  unfolding get_parent_def get_sibling_def by presburger

lemma get_sibling_other_child:
  "get_sibling i \<noteq> i \<and> {i, get_sibling i} = {2 * get_parent i, 2 * get_parent i + 1}"
  unfolding get_parent_def get_sibling_def by (auto; presburger)

text \<open>
  C8, as the spec states it: the sibling of an even node would be \<open>i - 1\<close>. The code
  returns \<open>i + 1\<close> for an even node: node 2 has sibling 3, not 1.
\<close>

theorem sibling_of_even_counterexample:
  "get_sibling 2 = 3 \<and> get_sibling 2 \<noteq> (if even (2::int) then 2 - 1 else 2 + 1)"
  by (simp add: get_sibling_def)

text \<open>
  C8, amended: for every node id \<open>i \<ge> 2\<close>, \<open>get_parent i\<close> is \<open>i\<close> divided by 2
  (integer division), and \<open>get_sibling i\<close> is \<open>i + 1\<close> if \<open>i\<close> is even, else \<open>i - 1\<close>.
\<close>

theorem parent_sibling_arithmetic:
  "2 \<le> i \<Longrightarrow>
     get_parent i = i div 2 \<and> get_sibling i = (if even i then i + 1 else i - 1)"
  by (auto simp: get_parent_def get_sibling_def even_iff_mod_2_eq_zero)

theorem parent_sibling_arithmetic_witness:
  "(2::int) \<le> 6 \<and> get_parent 6 = 3 \<and> get_sibling 6 = 7
     \<and> (2::int) \<le> 7 \<and> get_parent 7 = 3 \<and> get_sibling 7 = 6"
  using parent_sibling_arithmetic [of 6] parent_sibling_arithmetic [of 7] by simp

section \<open>Padding\<close>

lemma add_padding_128:
  "add_padding m 128 =
     Inr (m @ replicate (16 - length m mod 16) (of_nat (16 - length m mod 16 - 1)))"
proof -
  let ?r = "length m mod 16"
  have r: "?r < 16" by simp
  have a: "int (length m) mod 16 = int ?r" by (simp add: zmod_int)
  have b: "nat (16 - int ?r) = 16 - ?r" using r by linarith
  have c: "(word_of_int (16 - int ?r - 1) :: 8 word) = of_nat (16 - ?r - 1)"
  proof -
    have "16 - int ?r - 1 = int (16 - ?r - 1)" using r by linarith
    then show ?thesis by (simp only: of_int_of_nat_eq)
  qed
  show ?thesis
    using r by (simp add: add_padding_def Let_def a b c)
qed

lemma remove_padding_pad:
  assumes "q < 256" and v: "v = (of_nat q :: 8 word)"
  shows "remove_padding (m @ replicate (Suc q) v) = Inr m"
proof -
  have "unat v = q mod 2 ^ LENGTH(8)"
    unfolding v by (simp only: unat_of_nat)
  then have "unat v = q"
    using assms by simp
  then show ?thesis
    by (simp add: remove_padding_def Let_def)
qed

lemma add_padding_remove:
  "\<exists>pm. add_padding m 128 = Inr pm \<and> remove_padding pm = Inr m
       \<and> length pm mod 16 = 0 \<and> 0 < length pm"
proof -
  let ?p = "16 - length m mod 16"
  have r: "length m mod 16 < 16" by simp
  have p: "1 \<le> ?p" "?p \<le> 16" using r by linarith+
  have len: "(length m + ?p) mod 16 = 0" by presburger
  have q: "?p - 1 < 256" using p by simp
  have eq: "Suc (?p - 1) = ?p" using p by simp
  have rp: "remove_padding (m @ replicate ?p (of_nat (?p - 1))) = Inr m"
    using remove_padding_pad [OF q refl, of m] unfolding eq .
  show ?thesis
    using p len rp add_padding_128 [of m] by simp
qed

text \<open>
  C9: for every byte string \<open>m\<close>, \<open>add_padding\<close> (with the default block of 128 bits)
  appends \<open>p\<close> bytes of value \<open>p - 1\<close>, where \<open>p = 16 - (len(m) mod 16)\<close> lies in
  \<open>[1, 16]\<close>; the padded length is a positive multiple of 16; and \<open>remove_padding\<close>
  gives \<open>m\<close> back. Nothing is assumed of \<open>m\<close>, so the empty string and the strings
  of whole blocks are included.
\<close>

theorem padding_round_trip:
  "\<exists>p. p = 16 - length m mod 16 \<and> 1 \<le> p \<and> p \<le> 16
       \<and> add_padding m 128 = Inr (m @ replicate p (of_nat (p - 1)))
       \<and> length (m @ replicate p (of_nat (p - 1) :: 8 word)) mod 16 = 0
       \<and> 0 < length (m @ replicate p (of_nat (p - 1) :: 8 word))
       \<and> remove_padding (m @ replicate p (of_nat (p - 1))) = Inr m"
proof -
  let ?p = "16 - length m mod 16"
  have r: "length m mod 16 < 16" by simp
  have p: "1 \<le> ?p" "?p \<le> 16" using r by linarith+
  have len: "(length m + ?p) mod 16 = 0" by presburger
  have q: "?p - 1 < 256" using p by simp
  have eq: "Suc (?p - 1) = ?p" using p by simp
  have rp: "remove_padding (m @ replicate ?p (of_nat (?p - 1))) = Inr m"
    using remove_padding_pad [OF q refl, of m] unfolding eq .
  show ?thesis
    using p len rp add_padding_128 [of m] by simp
qed

section \<open>Paths and tree size\<close>

lemma path_loop_returns:
  "1 \<le> i \<Longrightarrow> path \<noteq> [] \<Longrightarrow> last path = i \<Longrightarrow>
     \<exists>q. path_loop path i = Some (path @ q) \<and> (\<forall>j \<in> set q. 1 \<le> j \<and> j < i)"
proof (induction "nat i" arbitrary: i path rule: less_induct)
  case less
  show ?case
  proof (cases "i = 1")
    case True
    with less.prems show ?thesis
      by (subst path_loop.simps) simp
  next
    case False
    let ?h = "get_parent i"
    have h: "1 \<le> ?h" "?h < i"
      using less.prems False by (simp_all add: get_parent_def)
    then have "nat ?h < nat i" by linarith
    from less.hyps [OF this h(1), of "path @ [?h]"]
    obtain q where q: "path_loop (path @ [?h]) ?h = Some ((path @ [?h]) @ q)"
        "\<forall>j \<in> set q. 1 \<le> j \<and> j < ?h"
      by auto
    have "path_loop path i = path_loop (path @ [?h]) ?h"
      using less.prems False by (subst path_loop.simps) simp
    with q h show ?thesis
      by (intro exI [of _ "?h # q"]) auto
  qed
qed

lemma get_path_to_root_returns:
  assumes "1 \<le> i"
  shows "\<exists>q. get_path_to_root i = Some (i # q) \<and> (\<forall>j \<in> set q. 1 \<le> j \<and> j < i)"
  using path_loop_returns [OF assms, of "[i]"] by (simp add: get_path_to_root_def)

lemma get_path_to_root_root: "get_path_to_root 1 = Some [1]"
  unfolding get_path_to_root_def by (subst path_loop.simps) simp

lemma foldl_nodes:
  "foldl (\<lambda>m i. m(i \<mapsto> keys i)) m0 xs j = (if j \<in> set xs then Some (keys j) else m0 j)"
  by (induction xs arbitrary: m0) auto

lemma ceil_log2_bounds: "1 \<le> n \<Longrightarrow> n \<le> 2 ^ ceil_log2 n \<and> 2 ^ ceil_log2 n < 2 * n"
proof (induction n rule: ceil_log2.induct)
  case (1 n)
  show ?case
  proof (cases "n \<le> 1")
    case True
    with 1 show ?thesis by (subst (1 2) ceil_log2.simps) simp
  next
    case False
    let ?h = "(n + 1) div 2"
    let ?c = "ceil_log2 ?h"
    from False have "1 \<le> ?h" by simp
    with 1 False have ih: "?h \<le> 2 ^ ?c" "(2::nat) ^ ?c < 2 * ?h"
      by auto
    have eq: "ceil_log2 n = Suc ?c"
      using False by (subst ceil_log2.simps) simp
    have lower: "n \<le> 2 * 2 ^ ?c"
      using ih(1) by linarith
    have upper: "(2::nat) ^ ?c < n"
    proof (cases "even n")
      case True
      then have "2 * ?h = n" by presburger
      with ih(2) show ?thesis by simp
    next
      case odd: False
      then have "2 * ?h = n + 1" by presburger
      with ih(2) have le: "(2::nat) ^ ?c \<le> n" by simp
      have "(2::nat) ^ ?c \<noteq> n"
      proof (cases ?c)
        case 0
        with False show ?thesis by simp
      next
        case (Suc c')
        then have "even ((2::nat) ^ ?c)" by simp
        with odd show ?thesis by metis
      qed
      with le show ?thesis by simp
    qed
    show ?thesis
      unfolding eq using lower upper by simp
  qed
qed

lemma ceil_log2_power: "ceil_log2 (2 ^ t) = t"
proof -
  have b: "(2::nat) ^ t \<le> 2 ^ ceil_log2 (2 ^ t)" "(2::nat) ^ ceil_log2 (2 ^ t) < 2 * 2 ^ t"
    using ceil_log2_bounds [of "2 ^ t"] by simp_all
  from b(1) have "t \<le> ceil_log2 (2 ^ t)" by simp
  moreover from b(2) have "(2::nat) ^ ceil_log2 (2 ^ t) < 2 ^ Suc t" by simp
  then have "ceil_log2 (2 ^ t) < Suc t" by (simp only: power_strict_increasing_iff) 
  ultimately show ?thesis by simp
qed

section \<open>Engine states and revocation\<close>

lemma path_siblings_simps:
  "path_siblings [] = {}"
  "path_siblings (j # js) =
     (if j \<noteq> 1 then insert (get_sibling j) (path_siblings js) else path_siblings js)"
  by (auto simp: path_siblings_def)

lemma get_S_cover_S_cover_update:
  "get_S_cover (st\<lparr>S_cover := c\<rparr>) = get_S_cover st"
  by (auto simp: get_S_cover_def)

lemma get_S_cover_returns:
  assumes "\<forall>i \<in> set_T st. 1 \<le> i"
  shows "\<exists>c. get_S_cover st = Some c"
proof -
  have "\<not> (\<exists>i \<in> set_T st. get_path_to_root i = None)"
    using assms get_path_to_root_returns by fastforce
  then show ?thesis
    by (auto simp: get_S_cover_def)
qed

lemma engine_inv_init:
  assumes "AACS_init keys n = Some (Inr st)"
  shows "engine_inv keys st"
proof -
  from assms have n: "0 < n"
    by (auto simp: AACS_init_def BinaryTree_init_def split: if_splits)
  define t where "t = ceil_log2 (nat n)"
  define tr where "tr = \<lparr> tree_n = n, tree_t = t, depth = t + 1,
                 nodes = foldl (\<lambda>m i. m(i \<mapsto> keys i)) Map.empty [1..2 ^ (t + 1) - 1],
                 first_leaf = 2 ^ t, last_leaf = 2 ^ (t + 1) - 1 \<rparr>"
  have tr: "BinaryTree_init keys n = Inr tr"
    using n by (simp add: BinaryTree_init_def Let_def tr_def t_def)
  define st0 where "st0 = BinaryTree.extend tr (AACS.fields (set (get_leaves tr)) {} [])"
  have fields: "tree_n st0 = n" "tree_t st0 = t" "depth st0 = t + 1"
      "first_leaf st0 = 2 ^ t" "last_leaf st0 = 2 ^ (t + 1) - 1"
      "nodes st0 = foldl (\<lambda>m i. m(i \<mapsto> keys i)) Map.empty [1..2 ^ (t + 1) - 1]"
      "set_S st0 = {2 ^ t..2 ^ (t + 1) - 1}" "set_T st0 = {}"
    by (simp_all add: st0_def tr_def BinaryTree.extend_def AACS.fields_def get_leaves_def)
  obtain c where c: "get_S_cover st0 = Some c"
    using get_S_cover_returns [of st0] fields by auto
  have st: "st = st0\<lparr>S_cover := c\<rparr>"
    using assms tr c by (simp add: AACS_init_def Let_def st0_def)
  have nd: "nodes st0 = (\<lambda>i. if 1 \<le> i \<and> i \<le> 2 ^ (t + 1) - 1 then Some (keys i) else None)"
    unfolding fields by (rule ext) (simp add: foldl_nodes)
  show ?thesis
    unfolding engine_inv_def st
    using n c nd fields by (simp add: get_S_cover_S_cover_update t_def)
qed

lemma engine_inv_revoke:
  assumes inv: "engine_inv keys st" and rv: "revoke st i = Some (st', b)"
  shows "engine_inv keys st'"
proof (cases "i \<in> set_S st")
  case False
  with rv inv show ?thesis by (simp add: revoke_def)
next
  case True
  define st1 where "st1 = st\<lparr>set_S := set_S st - {i}, set_T := insert i (set_T st)\<rparr>"
  from rv True obtain c where c: "get_S_cover st1 = Some c" and st': "st' = st1\<lparr>S_cover := c\<rparr>"
    by (auto simp: revoke_def Let_def st1_def split: option.splits)
  have "(set_S st - {i}) \<union> insert i (set_T st) = set_S st \<union> set_T st"
    using True by auto
  moreover have "(set_S st - {i}) \<inter> insert i (set_T st) = {}"
    using inv by (auto simp: engine_inv_def)
  ultimately show ?thesis
    using inv c unfolding engine_inv_def st' st1_def
    by (simp add: get_S_cover_S_cover_update)
qed

lemma reachable_inv: "reachable keys st \<Longrightarrow> engine_inv keys st"
  by (induction rule: reachable.induct) (auto intro: engine_inv_init engine_inv_revoke)

lemma engine_inv_leaf_pos:
  assumes "engine_inv keys st" "i \<in> set_S st \<union> set_T st"
  shows "1 \<le> i" "i \<le> last_leaf st"
proof -
  from assms have "i \<in> {first_leaf st..last_leaf st}" "first_leaf st = 2 ^ tree_t st"
    by (auto simp: engine_inv_def)
  then have "2 ^ tree_t st \<le> i" "i \<le> last_leaf st" by auto
  moreover have "(1::int) \<le> 2 ^ tree_t st" by simp
  ultimately show "1 \<le> i" "i \<le> last_leaf st" by linarith+
qed

lemma revoke_returns:
  assumes inv: "engine_inv keys st"
  shows "\<exists>st'. revoke st i = Some (st', i \<in> set_S st)"
proof (cases "i \<in> set_S st")
  case False
  then show ?thesis by (simp add: revoke_def)
next
  case True
  let ?st1 = "st\<lparr>set_S := set_S st - {i}, set_T := insert i (set_T st)\<rparr>"
  have "\<forall>j \<in> set_T ?st1. 1 \<le> j"
    using engine_inv_leaf_pos(1) [OF inv] True by auto
  from get_S_cover_returns [OF this] obtain c where "get_S_cover ?st1 = Some c" ..
  with True show ?thesis by (simp add: revoke_def Let_def)
qed

text \<open>
  C6: in every engine state, \<open>revoke(id)\<close> returns, and returns true exactly when
  \<open>id\<close> is in the valid set, which is when it is a leaf of the tree that is not
  revoked. Then it moves \<open>id\<close> from the valid to the revoked set and stores the
  cover computed afresh from the new sets, and changes nothing else; otherwise the
  state is unchanged. A second call with the same \<open>id\<close> returns false and leaves
  the state of the first call.
\<close>

theorem revoke_commits_or_no_op:
  assumes "reachable keys st"
  shows "\<exists>st'. revoke st i = Some (st', i \<in> set_S st)
           \<and> (i \<in> set_S st \<longleftrightarrow> i \<in> set (get_leaves st) \<and> i \<notin> set_T st)
           \<and> (i \<in> set_S st \<longrightarrow>
                (\<exists>cover. get_S_cover (st\<lparr>set_S := set_S st - {i}, set_T := insert i (set_T st)\<rparr>)
                            = Some cover
                   \<and> st' = st\<lparr>set_S := set_S st - {i}, set_T := insert i (set_T st),
                              S_cover := cover\<rparr>))
           \<and> (i \<notin> set_S st \<longrightarrow> st' = st)
           \<and> revoke st' i = Some (st', False)"
proof -
  have inv: "engine_inv keys st" using assms by (rule reachable_inv)
  obtain st' where st': "revoke st i = Some (st', i \<in> set_S st)"
    using revoke_returns [OF inv] by blast
  have leaves: "i \<in> set_S st \<longleftrightarrow> i \<in> set (get_leaves st) \<and> i \<notin> set_T st"
    using inv by (auto simp: engine_inv_def get_leaves_def)
  have commit: "\<exists>cover. get_S_cover (st\<lparr>set_S := set_S st - {i}, set_T := insert i (set_T st)\<rparr>)
                            = Some cover
                   \<and> st' = st\<lparr>set_S := set_S st - {i}, set_T := insert i (set_T st),
                              S_cover := cover\<rparr>" if "i \<in> set_S st"
    using st' that by (auto simp: revoke_def Let_def split: option.splits)
  have noop: "st' = st" if "i \<notin> set_S st"
    using st' that by (simp add: revoke_def)
  have "i \<notin> set_S st'"
  proof (cases "i \<in> set_S st")
    case True
    from commit [OF this] show ?thesis by auto
  next
    case False
    with noop show ?thesis by simp
  qed
  then have again: "revoke st' i = Some (st', False)"
    by (simp add: revoke_def)
  show ?thesis
    using st' leaves commit noop again by blast
qed

section \<open>Concrete engines\<close>

lemma engine_3:
  "AACS_init node_keys 3 = Some (Inr (engine 3))"
  "tree_n (engine 3) = 3" "first_leaf (engine 3) = 4" "last_leaf (engine 3) = 7"
  "set_S (engine 3) = {4, 5, 6, 7}" "set_T (engine 3) = {}" "S_cover (engine 3) = []"
  by (simp_all add: engine_def AACS_init_def BinaryTree_init_def get_S_cover_def Let_def
      ceil_log2.simps BinaryTree.extend_def AACS.fields_def get_leaves_def upto_rec_numeral)

lemma engine_8:
  "AACS_init node_keys 8 = Some (Inr (engine 8))"
  "tree_n (engine 8) = 8" "first_leaf (engine 8) = 8" "last_leaf (engine 8) = 15"
  "set_S (engine 8) = {8, 9, 10, 11, 12, 13, 14, 15}" "set_T (engine 8) = {}"
  "S_cover (engine 8) = [1]"
  by (simp_all add: engine_def AACS_init_def BinaryTree_init_def get_S_cover_def Let_def
      ceil_log2.simps BinaryTree.extend_def AACS.fields_def get_leaves_def upto_rec_numeral)

lemma reachable_engine_8: "reachable node_keys (engine 8)"
  by (rule reachable_init [OF engine_8(1)])

lemma path_8: "get_path_to_root 8 = Some [8, 4, 2, 1]"
  by (simp add: get_path_to_root_def path_loop.simps get_parent_def)

lemma path_9: "get_path_to_root 9 = Some [9, 4, 2, 1]"
  by (simp add: get_path_to_root_def path_loop.simps get_parent_def)

lemma revoked_8:
  "revoke (engine 8) 8 = Some (revoked (engine 8) 8, True)"
  "set_S (revoked (engine 8) 8) = {9, 10, 11, 12, 13, 14, 15}"
  "set_T (revoked (engine 8) 8) = {8}"
  "S_cover (revoked (engine 8) 8) = [3, 5, 9]"
  by (simp_all add: revoked_def revoke_def engine_8 get_S_cover_def Let_def path_8
      path_siblings_simps get_sibling_def)

lemma revoked_8_9:
  "revoke (revoked (engine 8) 8) 9 = Some (revoked (revoked (engine 8) 8) 9, True)"
  "set_S (revoked (revoked (engine 8) 8) 9) = {10, 11, 12, 13, 14, 15}"
  "set_T (revoked (revoked (engine 8) 8) 9) = {8, 9}"
  "S_cover (revoked (revoked (engine 8) 8) 9) = [3, 5, 8, 9]"
proof -
  let ?st = "revoked (engine 8) 8"
  let ?st1 = "?st\<lparr>set_S := set_S ?st - {9}, set_T := insert 9 (set_T ?st)\<rparr>"
  have n: "tree_n ?st = 8"
    by (simp add: revoked_def revoke_def engine_8 get_S_cover_def Let_def path_8)
  have u: "path_siblings [9, 4, 2, 1] \<union> path_siblings [8, 4, 2, 1] = {3, 5, 8, 9}"
    by (auto simp: path_siblings_simps get_sibling_def)
  have c: "get_S_cover ?st1 = Some [3, 5, 8, 9]"
    by (simp add: get_S_cover_def revoked_8 n path_8 path_9 u)
  have r: "revoke ?st 9 = Some (?st1\<lparr>S_cover := [3, 5, 8, 9]\<rparr>, True)"
    using c by (simp add: revoke_def Let_def revoked_8)
  then have eq: "revoked ?st 9 = ?st1\<lparr>S_cover := [3, 5, 8, 9]\<rparr>"
    by (simp add: revoked_def)
  show "revoke ?st 9 = Some (revoked ?st 9, True)"
    using r eq by simp
  show "set_S (revoked ?st 9) = {10, 11, 12, 13, 14, 15}"
    unfolding eq by (simp add: revoked_8)
  show "set_T (revoked ?st 9) = {8, 9}"
    unfolding eq by (auto simp: revoked_8)
  show "S_cover (revoked ?st 9) = [3, 5, 8, 9]"
    unfolding eq by simp
qed

lemma path_10: "get_path_to_root 10 = Some [10, 5, 2, 1]"
  by (simp add: get_path_to_root_def path_loop.simps get_parent_def)

lemma revoked_8_10:
  "revoke (revoked (engine 8) 8) 10 = Some (revoked (revoked (engine 8) 8) 10, True)"
  "set_T (revoked (revoked (engine 8) 8) 10) = {8, 10}"
  "S_cover (revoked (revoked (engine 8) 8) 10) = [3, 4, 5, 9, 11]"
proof -
  let ?st = "revoked (engine 8) 8"
  let ?st1 = "?st\<lparr>set_S := set_S ?st - {10}, set_T := insert 10 (set_T ?st)\<rparr>"
  have n: "tree_n ?st = 8"
    by (simp add: revoked_def revoke_def engine_8 get_S_cover_def Let_def path_8)
  have u: "path_siblings [10, 5, 2, 1] \<union> path_siblings [8, 4, 2, 1] = {3, 4, 5, 9, 11}"
    by (auto simp: path_siblings_simps get_sibling_def)
  have c: "get_S_cover ?st1 = Some [3, 4, 5, 9, 11]"
    by (simp add: get_S_cover_def revoked_8 n path_8 path_10 u)
  have r: "revoke ?st 10 = Some (?st1\<lparr>S_cover := [3, 4, 5, 9, 11]\<rparr>, True)"
    using c by (simp add: revoke_def Let_def revoked_8)
  then have eq: "revoked ?st 10 = ?st1\<lparr>S_cover := [3, 4, 5, 9, 11]\<rparr>"
    by (simp add: revoked_def)
  show "revoke ?st 10 = Some (revoked ?st 10, True)"
    using r eq by simp
  show "set_T (revoked ?st 10) = {8, 10}"
    unfolding eq by (auto simp: revoked_8)
  show "S_cover (revoked ?st 10) = [3, 4, 5, 9, 11]"
    unfolding eq by simp
qed

lemma reachable_revoked_8: "reachable node_keys (revoked (engine 8) 8)"
  by (rule reachable_revoke [OF reachable_engine_8 revoked_8(1)])

lemma reachable_revoked_8_9: "reachable node_keys (revoked (revoked (engine 8) 8) 9)"
  by (rule reachable_revoke [OF reachable_revoked_8 revoked_8_9(1)])

lemma reachable_revoked_8_10: "reachable node_keys (revoked (revoked (engine 8) 8) 10)"
  by (rule reachable_revoke [OF reachable_revoked_8 revoked_8_10(1)])

theorem revoke_commits_or_no_op_witness:
  "reachable node_keys (engine 8)
     \<and> (\<exists>st'. revoke (engine 8) 8 = Some (st', True)
            \<and> set_S st' = {9, 10, 11, 12, 13, 14, 15} \<and> set_T st' = {8}
            \<and> S_cover st' = [3, 5, 9]
            \<and> revoke st' 8 = Some (st', False))
     \<and> revoke (engine 8) 16 = Some (engine 8, False)"
proof -
  from revoke_commits_or_no_op [OF reachable_engine_8, of 8]
  obtain st' where a: "revoke (engine 8) 8 = Some (st', 8 \<in> set_S (engine 8))"
      and b: "revoke st' 8 = Some (st', False)"
    by blast
  from a have st': "st' = revoked (engine 8) 8"
    by (simp add: revoked_8)
  from revoke_commits_or_no_op [OF reachable_engine_8, of 16]
  have c: "revoke (engine 8) 16 = Some (engine 8, False)"
    by (auto simp: engine_8)
  show ?thesis
    using a b c reachable_engine_8 unfolding st' by (simp add: revoked_8 engine_8)
qed

text \<open>
  C4, at a tree size that is not a power of two: \<open>AACS(3)\<close> has the four leaves
  4..7, so \<open>len(S) == n\<close> is false although nothing is revoked, and the cover the
  constructor stores is empty, not \<open>(1,)\<close>.
\<close>

theorem cover_of_fresh_engine_of_three:
  "\<exists>st. AACS_init keys 3 = Some (Inr st) \<and> set_T st = {}
        \<and> set_S st = {4, 5, 6, 7} \<and> S_cover st = []"
  by (simp add: AACS_init_def BinaryTree_init_def get_S_cover_def Let_def ceil_log2.simps
      BinaryTree.extend_def AACS.fields_def get_leaves_def upto_rec_numeral)

text \<open>
  C1, after two revocations in a tree of eight leaves: with 8 and 9 revoked the cover
  is \<open>(3, 5, 8, 9)\<close>, which holds the revoked leaves themselves; with 8 and 10 revoked
  it is \<open>(3, 4, 5, 9, 11)\<close>, where node 4 is the parent of node 9 and an ancestor of
  the revoked leaf 8.
\<close>

theorem cover_after_two_revocations:
  "reachable node_keys (revoked (revoked (engine 8) 8) 9)
     \<and> set_T (revoked (revoked (engine 8) 8) 9) = {8, 9}
     \<and> S_cover (revoked (revoked (engine 8) 8) 9) = [3, 5, 8, 9]
     \<and> reachable node_keys (revoked (revoked (engine 8) 8) 10)
     \<and> set_T (revoked (revoked (engine 8) 8) 10) = {8, 10}
     \<and> S_cover (revoked (revoked (engine 8) 8) 10) = [3, 4, 5, 9, 11]
     \<and> get_parent 9 = 4 \<and> get_path_to_root 8 = Some [8, 4, 2, 1]"
  using reachable_revoked_8_9 reachable_revoked_8_10
  by (simp add: revoked_8_9 revoked_8_10 path_8 get_parent_def)

section \<open>The cover in an engine state, and the key blocks of encrypt\<close>

lemma tag_lengths: "length TAG_VALID = 16" "length TAG_SEPARATOR = 11"
  by (simp_all add: TAG_VALID_def TAG_SEPARATOR_def bytes_of_def)

lemma engine_inv_finite_T:
  assumes "engine_inv keys st"
  shows "finite (set_T st)"
proof -
  from assms have "set_T st \<subseteq> {first_leaf st..last_leaf st}"
    by (auto simp: engine_inv_def)
  then show ?thesis by (rule finite_subset) simp
qed

lemma cover_bounds:
  assumes inv: "engine_inv keys st" and u: "u \<in> set (S_cover st)"
  shows "1 \<le> u \<and> u \<le> last_leaf st"
proof -
  have last: "last_leaf st = 2 * 2 ^ tree_t st - 1"
    using inv by (simp add: engine_inv_def)
  have pos: "(1::int) \<le> 2 ^ tree_t st" by simp
  have cov: "get_S_cover st = Some (S_cover st)"
    using inv by (simp add: engine_inv_def)
  show ?thesis
  proof (cases "int (card (set_S st)) = tree_n st")
    case True
    with cov [symmetric] have "S_cover st = [1]" by (simp add: get_S_cover_def)
    with u have "u = 1" by simp
    with last pos show ?thesis by linarith
  next
    case False
    let ?A = "\<Union>i \<in> set_T st. path_siblings (the (get_path_to_root i))"
    have fin: "finite ?A"
      using engine_inv_finite_T [OF inv] by (simp add: path_siblings_def)
    from cov [symmetric] False have "S_cover st = sorted_list_of_set ?A"
      by (simp add: get_S_cover_def split: if_splits)
    with u fin have "u \<in> ?A" by simp
    then obtain i j where i: "i \<in> set_T st" and j: "j \<in> set (the (get_path_to_root i))"
        "j \<noteq> 1" and uj: "u = get_sibling j"
      by (auto simp: path_siblings_def)
    have i1: "1 \<le> i" "i \<le> last_leaf st"
      using engine_inv_leaf_pos [OF inv, of i] i by auto
    from get_path_to_root_returns [OF i1(1)] obtain q where
      q: "get_path_to_root i = Some (i # q)" "\<forall>j \<in> set q. 1 \<le> j \<and> j < i"
      by blast
    from j(1) q(1) have "j = i \<or> j \<in> set q" by simp
    with q(2) i1(1) have "1 \<le> j" "j \<le> i"
      by force+
    with j(2) i1(2) have jb: "2 \<le> j" "j \<le> last_leaf st" by auto
    show ?thesis
    proof (cases "even j")
      case True
      have "odd (last_leaf st)" unfolding last by simp
      with True have "j \<noteq> last_leaf st" by auto
      with jb True show ?thesis
        unfolding uj get_sibling_def by (auto simp: even_iff_mod_2_eq_zero)
    next
      case odd: False
      with jb show ?thesis
        unfolding uj get_sibling_def by (auto simp: even_iff_mod_2_eq_zero)
    qed
  qed
qed

lemma cover_sorted:
  assumes inv: "engine_inv keys st"
  shows "sorted (S_cover st) \<and> distinct (S_cover st)"
proof -
  have cov: "get_S_cover st = Some (S_cover st)"
    using inv by (simp add: engine_inv_def)
  show ?thesis
  proof (cases "int (card (set_S st)) = tree_n st")
    case True
    with cov [symmetric] have "S_cover st = [1]" by (simp add: get_S_cover_def)
    then show ?thesis by simp
  next
    case False
    with cov [symmetric] have "S_cover st = sorted_list_of_set
        (\<Union>i \<in> set_T st. path_siblings (the (get_path_to_root i)))"
      by (simp add: get_S_cover_def split: if_splits)
    then show ?thesis by simp
  qed
qed

lemma cover_keys:
  assumes inv: "engine_inv keys st" and u: "u \<in> set (S_cover st)"
  shows "nodes st u = Some (keys u)"
  using cover_bounds [OF inv u] inv by (simp add: engine_inv_def)

lemma encrypt_keys_blocks:
  assumes enc: "cbc_encrypts cph"
    and nd: "\<forall>u \<in> set us. nd u = Some (keys u)"
    and keys: "\<forall>i. length (keys i) = 16"
    and rnd: "\<forall>j. length (rnd j) = 16"
    and k: "length k = 16"
  shows "\<exists>blocks. encrypt_keys cph rnd nd k j us = Inr blocks
           \<and> length blocks = length us
           \<and> (\<forall>i < length us. \<exists>ct.
                 cbc_encrypt cph (keys (us ! i)) (rnd (j + i)) (TAG_VALID @ k) = Inr ct
                 \<and> length ct = 32 \<and> blocks ! i = rnd (j + i) @ ct)"
  using nd
proof (induction us arbitrary: j)
  case Nil
  then show ?case by simp
next
  case (Cons u us)
  have "length (TAG_VALID @ k) mod 16 = 0"
    using k by (simp add: tag_lengths)
  with keys rnd have "\<exists>c. cbc_encrypt cph (keys u) (rnd j) (TAG_VALID @ k) = Inr c
      \<and> length c = length (TAG_VALID @ k)"
    using enc [unfolded cbc_encrypts_def, rule_format, of "keys u" "rnd j" "TAG_VALID @ k"]
    by simp
  then obtain ct where
    ct: "cbc_encrypt cph (keys u) (rnd j) (TAG_VALID @ k) = Inr ct" "length ct = length (TAG_VALID @ k)"
    by auto
  from Cons.prems have "\<forall>u \<in> set us. nd u = Some (keys u)" by simp
  from Cons.IH [OF this, of "Suc j"] obtain blocks where
    b: "encrypt_keys cph rnd nd k (Suc j) us = Inr blocks" "length blocks = length us"
      "\<forall>i < length us. \<exists>ct.
         cbc_encrypt cph (keys (us ! i)) (rnd (Suc j + i)) (TAG_VALID @ k) = Inr ct
         \<and> length ct = 32 \<and> blocks ! i = rnd (Suc j + i) @ ct"
    by blast
  have u: "nd u = Some (keys u)" using Cons.prems by simp
  have e: "encrypt_keys cph rnd nd k j (u # us) = Inr ((rnd j @ ct) # blocks)"
    using u ct b(1) by (simp add: AES_encrypt_def)
  have all: "\<exists>ct'. cbc_encrypt cph (keys ((u # us) ! i)) (rnd (j + i)) (TAG_VALID @ k) = Inr ct'
          \<and> length ct' = 32 \<and> ((rnd j @ ct) # blocks) ! i = rnd (j + i) @ ct'"
    if "i < length (u # us)" for i
  proof (cases i)
    case 0
    with ct k show ?thesis by (simp add: tag_lengths)
  next
    case (Suc i')
    with that b(3) show ?thesis by simp
  qed
  show ?case
  proof (intro exI [of _ "(rnd j @ ct) # blocks"] conjI allI impI)
    show "encrypt_keys cph rnd nd k j (u # us) = Inr ((rnd j @ ct) # blocks)" by (rule e)
    show "length ((rnd j @ ct) # blocks) = length (u # us)" using b(2) by simp
  qed (rule all)
qed

lemma length_concat_blocks:
  "\<forall>b \<in> set blocks. length b = n \<Longrightarrow> length (concat blocks) = length blocks * n"
  by (induction blocks) simp_all

text \<open>
  C7: in every engine state, with 16-byte node keys and random draws and a cipher
  that returns ciphertexts as long as their block-aligned plaintexts, \<open>encrypt(m)\<close>
  returns, for every message \<open>m\<close>, the concatenation of one key block per cover node,
  in the order of the cover, which is ascending; each key block is a 16-byte IV
  followed by the 32-byte encryption, under the node's key, of the 16-byte validity
  marker and the 16-byte content key, 48 bytes in all; then the 11-byte separator,
  the 16-byte IV of the content and the encryption, under the content key, of the
  padded message, which is \<open>m\<close> followed by \<open>p\<close> bytes of value \<open>p - 1\<close> for
  \<open>p = 16 - (len(m) mod 16)\<close>. So the separator starts at byte offset 48 times the
  size of the cover.
\<close>

theorem encrypt_wire_format:
  assumes reach: "reachable keys st"
    and keys: "\<forall>i. length (keys i) = 16"
    and rnd: "\<forall>j. length (rnd j) = 16"
    and enc: "cbc_encrypts cph"
  shows "\<exists>blocks cm.
           encrypt cph rnd st m
             = Inr (concat blocks @ TAG_SEPARATOR @ rnd (Suc (length (S_cover st))) @ cm)
         \<and> length blocks = length (S_cover st)
         \<and> (\<forall>j < length (S_cover st). \<exists>ct.
               cbc_encrypt cph (keys (S_cover st ! j)) (rnd (Suc j)) (TAG_VALID @ rnd 0) = Inr ct
               \<and> length ct = 32 \<and> blocks ! j = rnd (Suc j) @ ct \<and> length (blocks ! j) = 48)
         \<and> sorted (S_cover st) \<and> distinct (S_cover st)
         \<and> length TAG_VALID = 16 \<and> length (rnd 0) = 16 \<and> length TAG_SEPARATOR = 11
         \<and> length (rnd (Suc (length (S_cover st)))) = 16
         \<and> add_padding m 128
             = Inr (m @ replicate (16 - length m mod 16) (of_nat (16 - length m mod 16 - 1)))
         \<and> cbc_encrypt cph (rnd 0) (rnd (Suc (length (S_cover st))))
              (m @ replicate (16 - length m mod 16) (of_nat (16 - length m mod 16 - 1)))
             = Inr cm
         \<and> length cm = length m + (16 - length m mod 16)
         \<and> length (concat blocks) = length (S_cover st) * 48
         \<and> take 11 (drop (length (S_cover st) * 48)
              (concat blocks @ TAG_SEPARATOR @ rnd (Suc (length (S_cover st))) @ cm))
             = TAG_SEPARATOR
         \<and> drop (length (S_cover st) * 48 + 11)
              (concat blocks @ TAG_SEPARATOR @ rnd (Suc (length (S_cover st))) @ cm)
             = rnd (Suc (length (S_cover st))) @ cm"
proof -
  let ?cover = "S_cover st"
  let ?iv = "rnd (Suc (length ?cover))"
  let ?pm = "m @ replicate (16 - length m mod 16) (of_nat (16 - length m mod 16 - 1) :: 8 word)"
  have inv: "engine_inv keys st" using reach by (rule reachable_inv)
  have nd: "\<forall>u \<in> set ?cover. nodes st u = Some (keys u)"
    using cover_keys [OF inv] by blast
  have k: "length (rnd 0) = 16" using rnd by simp
  have iv: "length ?iv = 16" using rnd by simp
  from encrypt_keys_blocks [OF enc nd keys rnd k, of 1]
  obtain blocks where
    b: "encrypt_keys cph rnd (nodes st) (rnd 0) 1 ?cover = Inr blocks"
      "length blocks = length ?cover"
      "\<forall>i < length ?cover. \<exists>ct.
         cbc_encrypt cph (keys (?cover ! i)) (rnd (1 + i)) (TAG_VALID @ rnd 0) = Inr ct
         \<and> length ct = 32 \<and> blocks ! i = rnd (1 + i) @ ct"
    by blast
  have pm: "add_padding m 128 = Inr ?pm"
    by (rule add_padding_128)
  have "(length m + (16 - length m mod 16)) mod 16 = 0"
    by presburger
  then have pml: "length ?pm mod 16 = 0"
    by simp
  have "length (rnd 0) = 16 \<and> length ?iv = 16 \<and> length ?pm mod 16 = 0"
    using k iv pml by (intro conjI)
  from enc [unfolded cbc_encrypts_def, rule_format, OF this]
  have "\<exists>c. cbc_encrypt cph (rnd 0) ?iv ?pm = Inr c \<and> length c = length ?pm" .
  then obtain cm where cm: "cbc_encrypt cph (rnd 0) ?iv ?pm = Inr cm"
      and cml': "length cm = length ?pm"
    by (elim exE conjE)
  have cml: "length cm = length m + (16 - length m mod 16)"
    using cml' by simp
  have e: "encrypt cph rnd st m = Inr (concat blocks @ TAG_SEPARATOR @ ?iv @ cm)"
    using b(1) pm cm by (simp add: encrypt_def AES_encrypt_def)
  have blk: "\<exists>ct. cbc_encrypt cph (keys (?cover ! j)) (rnd (Suc j)) (TAG_VALID @ rnd 0) = Inr ct
               \<and> length ct = 32 \<and> blocks ! j = rnd (Suc j) @ ct \<and> length (blocks ! j) = 48"
    if "j < length ?cover" for j
  proof -
    from b(3) that obtain ct where
      "cbc_encrypt cph (keys (?cover ! j)) (rnd (1 + j)) (TAG_VALID @ rnd 0) = Inr ct"
      "length ct = 32" "blocks ! j = rnd (1 + j) @ ct"
      by auto
    with rnd show ?thesis by simp
  qed
  have "\<forall>x \<in> set blocks. length x = 48"
  proof
    fix x assume "x \<in> set blocks"
    then obtain j where "j < length blocks" "x = blocks ! j"
      by (auto simp: in_set_conv_nth)
    with blk [of j] b(2) show "length x = 48" by auto
  qed
  then have len: "length (concat blocks) = length ?cover * 48"
    using length_concat_blocks [of blocks 48] b(2) by simp
  have off: "take 11 (drop (length ?cover * 48) (concat blocks @ TAG_SEPARATOR @ ?iv @ cm))
      = TAG_SEPARATOR"
    using len by (simp add: tag_lengths)
  have content: "drop (length ?cover * 48 + 11) (concat blocks @ TAG_SEPARATOR @ ?iv @ cm)
      = ?iv @ cm"
    using len by (simp add: tag_lengths)
  have blocks: "\<forall>j < length ?cover. \<exists>ct.
      cbc_encrypt cph (keys (?cover ! j)) (rnd (Suc j)) (TAG_VALID @ rnd 0) = Inr ct
      \<and> length ct = 32 \<and> blocks ! j = rnd (Suc j) @ ct \<and> length (blocks ! j) = 48"
    using blk by (intro allI impI)
  have sorted: "sorted ?cover" "distinct ?cover"
    using cover_sorted [OF inv] by simp_all
  show ?thesis
    apply (rule exI [of _ blocks])
    apply (rule exI [of _ cm])
    apply (insert e b(2) blocks sorted k iv pm cm cml len off content tag_lengths)
    apply (intro conjI; assumption)
    done
qed

lemma node_keys_length: "\<forall>i. length (node_keys i) = 16"
  by (simp add: node_keys_def)

lemma draws_length: "\<forall>j. length (draws j) = 16"
  by (simp add: draws_def)

lemma shift_cipher_encrypts: "cbc_encrypts shift_cipher"
  by (simp add: cbc_encrypts_def shift_cipher_def)

theorem encrypt_wire_format_witness:
  "reachable node_keys (revoked (engine 8) 8)
     \<and> (\<forall>i. length (node_keys i) = 16) \<and> (\<forall>j. length (draws j) = 16)
     \<and> cbc_encrypts shift_cipher
     \<and> S_cover (revoked (engine 8) 8) = [3, 5, 9]
     \<and> (\<exists>c. encrypt shift_cipher draws (revoked (engine 8) 8) (replicate 50 7) = Inr c
            \<and> length c = 3 * 48 + 11 + 16 + 64
            \<and> take 11 (drop (3 * 48) c) = TAG_SEPARATOR
            \<and> drop (3 * 48 + 11) c
                = draws 4 @ replicate 50 (7 + 100 + 104) @ replicate 14 (13 + 100 + 104))"
proof -
  let ?st = "revoked (engine 8) 8"
  have cov: "length (S_cover ?st) = 3"
    by (simp add: revoked_8)
  have p: "16 - length (replicate 50 (7 :: 8 word)) mod 16 = 14"
    by simp
  have four: "Suc 3 = 4"
    by simp
  from encrypt_wire_format [OF reachable_revoked_8 node_keys_length draws_length
      shift_cipher_encrypts, of "replicate 50 7"]
  obtain blocks cm where
    e: "encrypt shift_cipher draws ?st (replicate 50 7)
          = Inr (concat blocks @ TAG_SEPARATOR @ draws 4 @ cm)"
    and cm: "cbc_encrypt shift_cipher (draws 0) (draws 4)
               (replicate 50 7 @ replicate 14 (of_nat (14 - 1))) = Inr cm"
    and len: "length (concat blocks) = 3 * 48"
    and sep: "take 11 (drop (3 * 48) (concat blocks @ TAG_SEPARATOR @ draws 4 @ cm))
               = TAG_SEPARATOR"
    and content: "drop (3 * 48 + 11) (concat blocks @ TAG_SEPARATOR @ draws 4 @ cm)
               = draws 4 @ cm"
    unfolding cov p four by (elim exE conjE)
  from cm have cmv: "cm = replicate 50 (7 + 100 + 104) @ replicate 14 (13 + 100 + 104)"
    by (simp add: shift_cipher_def draws_def)
  have total: "length (concat blocks @ TAG_SEPARATOR @ draws 4 @ cm) = 3 * 48 + 11 + 16 + 64"
    using len by (simp add: cmv tag_lengths draws_def)
  have content': "drop (3 * 48 + 11) (concat blocks @ TAG_SEPARATOR @ draws 4 @ cm)
      = draws 4 @ replicate 50 (7 + 100 + 104) @ replicate 14 (13 + 100 + 104)"
    unfolding content by (subst cmv) (rule refl)
  have ex: "\<exists>c. encrypt shift_cipher draws ?st (replicate 50 7) = Inr c
            \<and> length c = 3 * 48 + 11 + 16 + 64
            \<and> take 11 (drop (3 * 48) c) = TAG_SEPARATOR
            \<and> drop (3 * 48 + 11) c
                = draws 4 @ replicate 50 (7 + 100 + 104) @ replicate 14 (13 + 100 + 104)"
    apply (rule exI [of _ "concat blocks @ TAG_SEPARATOR @ draws 4 @ cm"])
    apply (insert e total sep content')
    apply (intro conjI; assumption)
    done
  show ?thesis
    apply (insert ex reachable_revoked_8 node_keys_length draws_length shift_cipher_encrypts
        revoked_8(4))
    apply (intro conjI; assumption)
    done
qed

section \<open>The scan of decrypt\<close>

lemma key_blocks_Nil: "c = [] \<or> prefix TAG_SEPARATOR c \<Longrightarrow> key_blocks c = []"
  by (subst key_blocks.simps) simp

lemma key_blocks_Cons:
  "c \<noteq> [] \<Longrightarrow> \<not> prefix TAG_SEPARATOR c \<Longrightarrow>
     key_blocks c = take ENCRYPTED_KEY_SIZE c # key_blocks (drop ENCRYPTED_KEY_SIZE c)"
  by (subst key_blocks.simps) simp

lemma key_blocks_eq_Cons:
  assumes "key_blocks c = b # bs"
  shows "c \<noteq> [] \<and> \<not> prefix TAG_SEPARATOR c \<and> b = take ENCRYPTED_KEY_SIZE c
           \<and> bs = key_blocks (drop ENCRYPTED_KEY_SIZE c)"
proof (cases "c = [] \<or> prefix TAG_SEPARATOR c")
  case True
  with assms key_blocks_Nil [of c] show ?thesis by simp
next
  case False
  with assms key_blocks_Cons [of c] show ?thesis by simp
qed

lemma rest_after_block:
  assumes "c \<noteq> []" "\<not> prefix TAG_SEPARATOR c"
  shows "drop (ENCRYPTED_KEY_SIZE * length (key_blocks c)) c =
    drop (ENCRYPTED_KEY_SIZE * length (key_blocks (drop ENCRYPTED_KEY_SIZE c)))
      (drop ENCRYPTED_KEY_SIZE c)"
  by (simp add: key_blocks_Cons [OF assms] add.commute)

text \<open>Once the key is found, the loop only walks to the end of the key blocks.\<close>

lemma decrypt_loop_found:
  "decrypt_loop cph st node_id (Some k) c =
     Some (Inr (Some k, drop (ENCRYPTED_KEY_SIZE * length (key_blocks c)) c \<noteq> [],
                drop (ENCRYPTED_KEY_SIZE * length (key_blocks c)) c))"
proof (induction c rule: key_blocks.induct)
  case (1 c)
  show ?case
  proof (cases "c = [] \<or> prefix TAG_SEPARATOR c")
    case True
    then have "key_blocks c = []" by (rule key_blocks_Nil)
    with True show ?thesis
      by (subst decrypt_loop.simps) auto
  next
    case False
    then have kb: "key_blocks c = take ENCRYPTED_KEY_SIZE c # key_blocks (drop ENCRYPTED_KEY_SIZE c)"
      by (simp add: key_blocks_Cons)
    have "decrypt_loop cph st node_id (Some k) c =
        decrypt_loop cph st node_id (Some k) (drop ENCRYPTED_KEY_SIZE c)"
      using False by (subst decrypt_loop.simps) simp
    also note 1 [OF False]
    finally show ?thesis
      using False by (simp add: rest_after_block [of c])
  qed
qed

text \<open>While no key block yields the key, the loop keeps searching to the end.\<close>

lemma decrypt_loop_no_key:
  assumes known: "get_known_keys st node_id = Some (Inr ks)"
    and none: "\<forall>b \<in> set (key_blocks c). try_keys cph b ks = Inr None"
  shows "decrypt_loop cph st node_id None c =
     Some (Inr (None, drop (ENCRYPTED_KEY_SIZE * length (key_blocks c)) c \<noteq> [],
                drop (ENCRYPTED_KEY_SIZE * length (key_blocks c)) c))"
  using none
proof (induction c rule: key_blocks.induct)
  case (1 c)
  show ?case
  proof (cases "c = [] \<or> prefix TAG_SEPARATOR c")
    case True
    then have "key_blocks c = []" by (rule key_blocks_Nil)
    with True show ?thesis
      by (subst decrypt_loop.simps) auto
  next
    case False
    then have kb: "key_blocks c = take ENCRYPTED_KEY_SIZE c # key_blocks (drop ENCRYPTED_KEY_SIZE c)"
      by (simp add: key_blocks_Cons)
    with "1.prems" have t: "try_keys cph (take ENCRYPTED_KEY_SIZE c) ks = Inr None"
      and rest: "\<forall>b \<in> set (key_blocks (drop ENCRYPTED_KEY_SIZE c)). try_keys cph b ks = Inr None"
      by simp_all
    have "decrypt_loop cph st node_id None c =
        decrypt_loop cph st node_id None (drop ENCRYPTED_KEY_SIZE c)"
      using False known t by (subst decrypt_loop.simps) simp
    also note "1.IH" [OF False rest]
    finally show ?thesis
      using False by (simp add: rest_after_block [of c])
  qed
qed

text \<open>The first key block that yields a key ends the search.\<close>

lemma decrypt_loop_key:
  assumes known: "get_known_keys st node_id = Some (Inr ks)"
    and split: "key_blocks c = pre @ b # post"
    and none: "\<forall>b' \<in> set pre. try_keys cph b' ks = Inr None"
    and hit: "try_keys cph b ks = Inr (Some k)"
  shows "decrypt_loop cph st node_id None c =
     Some (Inr (Some k, drop (ENCRYPTED_KEY_SIZE * length (key_blocks c)) c \<noteq> [],
                drop (ENCRYPTED_KEY_SIZE * length (key_blocks c)) c))"
  using split none
proof (induction pre arbitrary: c)
  case Nil
  then have kb: "key_blocks c = b # post" by simp
  from key_blocks_eq_Cons [OF this]
  have c: "c \<noteq> []" "\<not> prefix TAG_SEPARATOR c" "b = take ENCRYPTED_KEY_SIZE c"
      "post = key_blocks (drop ENCRYPTED_KEY_SIZE c)"
    by simp_all
  have "decrypt_loop cph st node_id None c =
      decrypt_loop cph st node_id (Some k) (drop ENCRYPTED_KEY_SIZE c)"
    using c known hit by (subst decrypt_loop.simps) simp
  also note decrypt_loop_found
  finally show ?case
    by (simp only: rest_after_block [OF c(1,2)])
next
  case (Cons a pre)
  then have kb: "key_blocks c = a # (pre @ b # post)" by simp
  from key_blocks_eq_Cons [OF this]
  have c: "c \<noteq> []" "\<not> prefix TAG_SEPARATOR c" "a = take ENCRYPTED_KEY_SIZE c"
      "pre @ b # post = key_blocks (drop ENCRYPTED_KEY_SIZE c)"
    by simp_all
  from Cons.prems have a: "try_keys cph a ks = Inr None"
    and pre: "\<forall>b' \<in> set pre. try_keys cph b' ks = Inr None"
    by simp_all
  have "decrypt_loop cph st node_id None c =
      decrypt_loop cph st node_id None (drop ENCRYPTED_KEY_SIZE c)"
    using c known a by (subst decrypt_loop.simps) simp
  also note Cons.IH [OF c(4) [symmetric] pre]
  finally show ?case
    by (simp only: rest_after_block [OF c(1,2)])
qed

text \<open>An error of a trial decryption, before any key is found, ends the loop.\<close>

lemma decrypt_loop_error:
  assumes known: "get_known_keys st node_id = Some (Inr ks)"
    and split: "key_blocks c = pre @ b # post"
    and none: "\<forall>b' \<in> set pre. try_keys cph b' ks = Inr None"
    and err: "try_keys cph b ks = Inl e"
  shows "decrypt_loop cph st node_id None c = Some (Inl e)"
  using split none
proof (induction pre arbitrary: c)
  case Nil
  then have kb: "key_blocks c = b # post" by simp
  from key_blocks_eq_Cons [OF this]
  have c: "c \<noteq> []" "\<not> prefix TAG_SEPARATOR c" "b = take ENCRYPTED_KEY_SIZE c"
    by simp_all
  show ?case
    using c known err by (subst decrypt_loop.simps) simp
next
  case (Cons a pre)
  then have kb: "key_blocks c = a # (pre @ b # post)" by simp
  from key_blocks_eq_Cons [OF this]
  have c: "c \<noteq> []" "\<not> prefix TAG_SEPARATOR c" "a = take ENCRYPTED_KEY_SIZE c"
      "pre @ b # post = key_blocks (drop ENCRYPTED_KEY_SIZE c)"
    by simp_all
  from Cons.prems have a: "try_keys cph a ks = Inr None"
    and pre: "\<forall>b' \<in> set pre. try_keys cph b' ks = Inr None"
    by simp_all
  have "decrypt_loop cph st node_id None c =
      decrypt_loop cph st node_id None (drop ENCRYPTED_KEY_SIZE c)"
    using c known a by (subst decrypt_loop.simps) simp
  also note Cons.IH [OF c(4) [symmetric] pre]
  finally show ?case .
qed

lemma no_separator_rest:
  "\<forall>j. \<not> prefix TAG_SEPARATOR (drop (ENCRYPTED_KEY_SIZE * j) c) \<Longrightarrow>
     drop (ENCRYPTED_KEY_SIZE * length (key_blocks c)) c = []"
proof (induction c rule: key_blocks.induct)
  case (1 c)
  show ?case
  proof (cases "c = [] \<or> prefix TAG_SEPARATOR c")
    case True
    with "1.prems" [rule_format, of 0] show ?thesis by simp
  next
    case False
    then have kb: "key_blocks c = take ENCRYPTED_KEY_SIZE c # key_blocks (drop ENCRYPTED_KEY_SIZE c)"
      by (simp add: key_blocks_Cons)
    have "\<forall>j. \<not> prefix TAG_SEPARATOR (drop (ENCRYPTED_KEY_SIZE * j) (drop ENCRYPTED_KEY_SIZE c))"
    proof
      fix j
      show "\<not> prefix TAG_SEPARATOR (drop (ENCRYPTED_KEY_SIZE * j) (drop ENCRYPTED_KEY_SIZE c))"
        using "1.prems" [rule_format, of "Suc j"] by (simp add: add.commute)
    qed
    from "1.IH" [OF False this] show ?thesis
      using False by (simp add: rest_after_block [of c])
  qed
qed

lemma prefix_short_append:
  "length xs \<le> length ys \<Longrightarrow> prefix xs (ys @ zs) \<longleftrightarrow> prefix xs ys"
proof
  assume "length xs \<le> length ys" "prefix xs (ys @ zs)"
  moreover have "prefix ys (ys @ zs)" by simp
  ultimately show "prefix xs ys" by (rule prefix_length_prefix [rotated 2])
next
  assume "prefix xs ys"
  then show "prefix xs (ys @ zs)" by (rule prefix_prefix)
qed

lemma key_blocks_stream:
  assumes "\<forall>b \<in> set bs. length b = ENCRYPTED_KEY_SIZE \<and> \<not> prefix TAG_SEPARATOR b"
  shows "key_blocks (concat bs @ TAG_SEPARATOR @ tail) = bs"
  using assms
proof (induction bs)
  case Nil
  show ?case by (simp add: key_blocks_Nil)
next
  case (Cons b bs)
  then have b: "length b = ENCRYPTED_KEY_SIZE" "\<not> prefix TAG_SEPARATOR b" by simp_all
  let ?c = "concat (b # bs) @ TAG_SEPARATOR @ tail"
  have ne: "?c \<noteq> []" by (simp add: TAG_SEPARATOR_def bytes_of_def)
  have "length TAG_SEPARATOR \<le> length b"
    using b(1) by (simp add: tag_lengths ENCRYPTED_KEY_SIZE_def)
  then have np: "\<not> prefix TAG_SEPARATOR ?c"
    using b(2) prefix_short_append [of TAG_SEPARATOR b "concat bs @ TAG_SEPARATOR @ tail"]
    by simp
  from key_blocks_Cons [OF ne np] b(1) Cons show ?case by simp
qed

lemma lookup_keys_map:
  "\<forall>i \<in> set path. nd i = Some (keys i) \<Longrightarrow> lookup_keys nd path = Inr (map keys path)"
  by (induction path) simp_all

lemma known_keys_returns:
  assumes inv: "engine_inv keys st" and n: "1 \<le> node_id" "node_id \<le> last_leaf st"
  shows "\<exists>path. get_path_to_root node_id = Some path
           \<and> get_known_keys st node_id = Some (Inr (map keys path))"
proof -
  from get_path_to_root_returns [OF n(1)] obtain q where
    q: "get_path_to_root node_id = Some (node_id # q)" "\<forall>j \<in> set q. 1 \<le> j \<and> j < node_id"
    by (elim exE conjE)
  have nd: "nodes st = (\<lambda>i. if 1 \<le> i \<and> i \<le> last_leaf st then Some (keys i) else None)"
    using inv by (simp add: engine_inv_def)
  have "\<forall>i \<in> set (node_id # q). nodes st i = Some (keys i)"
    using q(2) n unfolding nd by auto
  from lookup_keys_map [OF this] q(1) show ?thesis
    by (simp add: get_known_keys_def)
qed

section \<open>The errors of decrypt\<close>

lemma try_keys_None_iff:
  "try_keys cph b ks = Inr None \<longleftrightarrow>
     (\<forall>k_u \<in> set ks. \<exists>p. AES_decrypt cph k_u (take IV_SIZE b) (drop IV_SIZE b) = Inr p
                         \<and> \<not> prefix TAG_VALID p)"
  by (induction ks) (auto split: sum.splits)

text \<open>
  C5, as the spec states it, at a truncated stream with no recoverable key: the
  engine of eight leaves with leaf 8 revoked encrypts a message, the stream is cut
  after its first key block (for cover node 3), and the revoked device 8 decrypts.
  The scan exhausts the 48 bytes without meeting the separator, and the result is
  KeyNotFound, not SeparatorNotFound: the loop is followed by the test of
  \<open>keep_searching\<close> first.
\<close>

theorem truncated_stream_counterexample:
  "encrypt shift_cipher draws (revoked (engine 8) 8) (bytes_of ''hello'')
     = Inr (broadcast (revoked (engine 8) 8) (bytes_of ''hello''))
   \<and> length (take 48 (broadcast (revoked (engine 8) 8) (bytes_of ''hello''))) = 48
   \<and> \<not> prefix TAG_SEPARATOR (take 48 (broadcast (revoked (engine 8) 8) (bytes_of ''hello'')))
   \<and> decrypt shift_cipher (revoked (engine 8) 8) 8
        (take 48 (broadcast (revoked (engine 8) 8) (bytes_of ''hello'')))
       = Some (Inl KeyNotFound)
   \<and> KeyNotFound \<noteq> SeparatorNotFound"
  by code_simp

text \<open>
  C5, amended: in every engine state, for every node id of the tree and every input
  stream, the key blocks being the 48-byte strides the scan visits before the stream
  ends or starts with the separator at a stride boundary:
  if every trial decryption of every key block, under each of the device's path
  keys, returns a plaintext that does not start with the validity marker, \<open>decrypt\<close>
  fails with KeyNotFound, whether or not the separator is found;
  if the trial decryptions of a key block raise an error of the cipher, the key
  blocks before it yielding no key, \<open>decrypt\<close> fails with that error;
  if a key block yields a key, the key blocks before it yielding none, and the
  stream has the separator at no stride boundary, \<open>decrypt\<close> fails with
  \<open>ValueError('Separator not found')\<close>;
  and every stream is in one of these cases or yields a key. In particular a
  truncated stream whose trial decryptions all return and recover no key fails with
  KeyNotFound, and one cut inside a key block can fail with the cipher's own error.
\<close>

theorem decrypt_error_discrimination:
  assumes reach: "reachable keys st" and node: "1 \<le> node_id" "node_id \<le> last_leaf st"
  shows "\<exists>ks. get_known_keys st node_id = Some (Inr ks)
     \<and> ((\<forall>b \<in> set (key_blocks c). \<forall>k_u \<in> set ks.
            \<exists>p. AES_decrypt cph k_u (take IV_SIZE b) (drop IV_SIZE b) = Inr p
                 \<and> \<not> prefix TAG_VALID p)
          \<longrightarrow> decrypt cph st node_id c = Some (Inl KeyNotFound))
     \<and> (\<forall>e. (\<exists>pre b post. key_blocks c = pre @ b # post
             \<and> (\<forall>b' \<in> set pre. try_keys cph b' ks = Inr None)
             \<and> try_keys cph b ks = Inl e)
          \<longrightarrow> decrypt cph st node_id c = Some (Inl e))
     \<and> ((\<exists>pre b post k. key_blocks c = pre @ b # post
             \<and> (\<forall>b' \<in> set pre. try_keys cph b' ks = Inr None)
             \<and> try_keys cph b ks = Inr (Some k))
          \<and> (\<forall>j. \<not> prefix TAG_SEPARATOR (drop (ENCRYPTED_KEY_SIZE * j) c))
          \<longrightarrow> decrypt cph st node_id c = Some (Inl SeparatorNotFound))
     \<and> ((\<forall>b \<in> set (key_blocks c). try_keys cph b ks = Inr None)
          \<or> (\<exists>pre b post e. key_blocks c = pre @ b # post
                \<and> (\<forall>b' \<in> set pre. try_keys cph b' ks = Inr None)
                \<and> try_keys cph b ks = Inl e)
          \<or> (\<exists>pre b post k. key_blocks c = pre @ b # post
                \<and> (\<forall>b' \<in> set pre. try_keys cph b' ks = Inr None)
                \<and> try_keys cph b ks = Inr (Some k)))"
proof -
  have inv: "engine_inv keys st" using reach by (rule reachable_inv)
  from known_keys_returns [OF inv node] obtain path where
    known: "get_known_keys st node_id = Some (Inr (map keys path))"
    by (elim exE conjE)
  let ?ks = "map keys path"
  let ?rest = "drop (ENCRYPTED_KEY_SIZE * length (key_blocks c)) c"
  have a: "decrypt cph st node_id c = Some (Inl KeyNotFound)"
    if "\<forall>b \<in> set (key_blocks c). \<forall>k_u \<in> set ?ks.
            \<exists>p. AES_decrypt cph k_u (take IV_SIZE b) (drop IV_SIZE b) = Inr p
                 \<and> \<not> prefix TAG_VALID p"
  proof -
    from that have "\<forall>b \<in> set (key_blocks c). try_keys cph b ?ks = Inr None"
      by (simp only: try_keys_None_iff)
    from decrypt_loop_no_key [OF known this] show ?thesis
      by (simp add: decrypt_def)
  qed
  have err: "decrypt cph st node_id c = Some (Inl e)"
    if "\<exists>pre b post. key_blocks c = pre @ b # post
             \<and> (\<forall>b' \<in> set pre. try_keys cph b' ?ks = Inr None)
             \<and> try_keys cph b ?ks = Inl e" for e
  proof -
    from that obtain pre b post where
      h: "key_blocks c = pre @ b # post" "\<forall>b' \<in> set pre. try_keys cph b' ?ks = Inr None"
        "try_keys cph b ?ks = Inl e"
      by (elim exE conjE)
    from decrypt_loop_error [OF known h] show ?thesis
      by (simp add: decrypt_def)
  qed
  have b: "decrypt cph st node_id c = Some (Inl SeparatorNotFound)"
    if hit: "\<exists>pre b post k. key_blocks c = pre @ b # post
             \<and> (\<forall>b' \<in> set pre. try_keys cph b' ?ks = Inr None)
             \<and> try_keys cph b ?ks = Inr (Some k)"
      and nosep: "\<forall>j. \<not> prefix TAG_SEPARATOR (drop (ENCRYPTED_KEY_SIZE * j) c)"
  proof -
    from hit obtain pre b post k where
      h: "key_blocks c = pre @ b # post" "\<forall>b' \<in> set pre. try_keys cph b' ?ks = Inr None"
        "try_keys cph b ?ks = Inr (Some k)"
      by (elim exE conjE)
    have "?rest = []" using nosep by (rule no_separator_rest)
    with decrypt_loop_key [OF known h] show ?thesis
      by (simp add: decrypt_def)
  qed
  have cases: "(\<forall>b \<in> set (key_blocks c). try_keys cph b ?ks = Inr None)
          \<or> (\<exists>pre b post e. key_blocks c = pre @ b # post
                \<and> (\<forall>b' \<in> set pre. try_keys cph b' ?ks = Inr None)
                \<and> try_keys cph b ?ks = Inl e)
          \<or> (\<exists>pre b post k. key_blocks c = pre @ b # post
                \<and> (\<forall>b' \<in> set pre. try_keys cph b' ?ks = Inr None)
                \<and> try_keys cph b ?ks = Inr (Some k))"
  proof (cases "\<forall>b \<in> set (key_blocks c). try_keys cph b ?ks = Inr None")
    case True
    then show ?thesis by (rule disjI1)
  next
    case False
    then have "\<exists>b \<in> set (key_blocks c). try_keys cph b ?ks \<noteq> Inr None"
      by simp
    from split_list_first_prop [OF this] obtain pre b post where
      s: "key_blocks c = pre @ b # post" "try_keys cph b ?ks \<noteq> Inr None"
        "\<forall>b' \<in> set pre. \<not> try_keys cph b' ?ks \<noteq> Inr None"
      by (elim exE conjE)
    from s(3) have pre: "\<forall>b' \<in> set pre. try_keys cph b' ?ks = Inr None"
      by simp
    show ?thesis
    proof (cases "try_keys cph b ?ks")
      case (Inl e)
      with s(1) pre show ?thesis by blast
    next
      case (Inr r)
      with s(2) obtain k where "try_keys cph b ?ks = Inr (Some k)"
        by (cases r) simp_all
      with s(1) pre show ?thesis by blast
    qed
  qed
  show ?thesis
    apply (rule exI [of _ ?ks])
    apply (intro conjI impI allI)
        apply (rule known)
       apply (erule a)
      apply (erule err)
     apply (erule conjE)
     apply (erule (1) b)
    apply (rule cases)
    done
qed

text \<open>
  C10, amended: \<open>remove_padding\<close> fails with IndexError on the empty byte string.
  On every stream in which a key block yields a content key and the separator is
  then found with at most 16 bytes after it, \<open>decrypt\<close> passes those bytes to the
  cipher as the IV, with the empty ciphertext, and its result is the cipher's error
  if the cipher raises, else \<open>remove_padding\<close> of the plaintext. When exactly 16
  bytes are left, the content key has 16 bytes and the cipher returns the empty
  plaintext for the empty ciphertext, the unpadding step hits the out-of-range
  access: \<open>decrypt\<close> fails with IndexError, neither KeyNotFound nor
  \<open>ValueError('Separator not found')\<close>.
\<close>

theorem unpadding_out_of_range:
  assumes known: "get_known_keys st node_id = Some (Inr ks)"
    and split: "key_blocks c = pre @ b # post"
    and none: "\<forall>b' \<in> set pre. try_keys cph b' ks = Inr None"
    and hit: "try_keys cph b ks = Inr (Some k)"
    and sep: "drop (ENCRYPTED_KEY_SIZE * length (key_blocks c)) c = TAG_SEPARATOR @ tail"
    and short: "length tail \<le> 16"
  shows "remove_padding [] = Inl IndexError
           \<and> decrypt cph st node_id c
               = (case AES_decrypt cph k tail [] of
                    Inl e \<Rightarrow> Some (Inl e)
                  | Inr p \<Rightarrow> Some (remove_padding p))
           \<and> (length tail = 16 \<and> length k = 16 \<and> cbc_decrypts_empty cph
                \<longrightarrow> decrypt cph st node_id c = Some (Inl IndexError))"
proof -
  have r: "remove_padding [] = Inl IndexError"
    by (simp add: remove_padding_def)
  have ne: "TAG_SEPARATOR @ tail \<noteq> []"
    by (simp add: TAG_SEPARATOR_def bytes_of_def)
  from decrypt_loop_key [OF known split none hit]
  have "decrypt_loop cph st node_id None c = Some (Inr (Some k, True, TAG_SEPARATOR @ tail))"
    unfolding sep using ne by simp
  then have d: "decrypt cph st node_id c
               = (case AES_decrypt cph k tail [] of
                    Inl e \<Rightarrow> Some (Inl e)
                  | Inr p \<Rightarrow> Some (remove_padding p))"
    using short by (simp add: decrypt_def)
  have i: "decrypt cph st node_id c = Some (Inl IndexError)"
    if "length tail = 16 \<and> length k = 16 \<and> cbc_decrypts_empty cph"
  proof -
    from that have "AES_decrypt cph k tail [] = Inr []"
      by (simp add: cbc_decrypts_empty_def AES_decrypt_def)
    with d r show ?thesis by simp
  qed
  show ?thesis
    apply (intro conjI impI)
      apply (rule r)
     apply (rule d)
    apply (erule i)
    done
qed

lemma shift_cipher_inverse:
  "cbc_encrypt shift_cipher key iv p = Inr c \<Longrightarrow> cbc_decrypt shift_cipher key iv c = Inr p"
  by (auto simp: shift_cipher_def comp_def split: if_splits)

lemma shift_cipher_wrong_key:
  assumes "length key = 16" "length key' = 16" "length iv = 16" "length k = 16"
    and "hd key \<noteq> hd key'"
  shows "\<exists>c p. cbc_encrypt shift_cipher key iv (TAG_VALID @ k) = Inr c
           \<and> cbc_decrypt shift_cipher key' iv c = Inr p \<and> \<not> prefix TAG_VALID p"
  using assms by (simp add: shift_cipher_def TAG_VALID_def bytes_of_def)

lemma known_keys_8:
  "get_known_keys (revoked (engine 8) 8) 8 = Some (Inr (map node_keys [8, 4, 2, 1]))"
  "get_known_keys (revoked (engine 8) 8) 12 = Some (Inr (map node_keys [12, 6, 3, 1]))"
  "get_known_keys (engine 8) 8 = Some (Inr (map node_keys [8, 4, 2, 1]))"
  by code_simp+

lemma last_leaf_revoked_8: "last_leaf (revoked (engine 8) 8) = 15"
  by code_simp

theorem decrypt_error_discrimination_witness:
  "reachable node_keys (revoked (engine 8) 8)
     \<and> (1::int) \<le> 8 \<and> 8 \<le> last_leaf (revoked (engine 8) 8)
     \<and> (1::int) \<le> 12 \<and> 12 \<le> last_leaf (revoked (engine 8) 8)
     \<and> decrypt shift_cipher (revoked (engine 8) 8) 8
          (take 48 (broadcast (revoked (engine 8) 8) (bytes_of ''hello'')))
         = Some (Inl KeyNotFound)
     \<and> decrypt shift_cipher (revoked (engine 8) 8) 8
          (take 50 (broadcast (revoked (engine 8) 8) (bytes_of ''hello'')))
         = Some (Inl (ValueError ''cipher''))
     \<and> decrypt shift_cipher (revoked (engine 8) 8) 12
          (take 48 (broadcast (revoked (engine 8) 8) (bytes_of ''hello'')))
         = Some (Inl SeparatorNotFound)"
proof -
  let ?st = "revoked (engine 8) 8"
  let ?c = "take 48 (broadcast ?st (bytes_of ''hello''))"
  let ?c50 = "take 50 (broadcast ?st (bytes_of ''hello''))"
  have n8: "(1::int) \<le> 8" "8 \<le> last_leaf ?st" and n12: "(1::int) \<le> 12" "12 \<le> last_leaf ?st"
    by (simp_all add: last_leaf_revoked_8)
  have none: "\<forall>b \<in> set (key_blocks ?c). try_keys shift_cipher b (map node_keys [8, 4, 2, 1]) = Inr None"
    by code_simp
  have blocks: "key_blocks ?c = [] @ ?c # []"
    by code_simp
  have hit: "try_keys shift_cipher ?c (map node_keys [12, 6, 3, 1]) = Inr (Some (draws 0))"
    by code_simp
  have blocks50: "key_blocks ?c50 = [?c] @ drop 48 ?c50 # []"
    by code_simp
  have none50: "\<forall>b' \<in> set [?c]. try_keys shift_cipher b' (map node_keys [8, 4, 2, 1]) = Inr None"
    by code_simp
  have err50: "try_keys shift_cipher (drop 48 ?c50) (map node_keys [8, 4, 2, 1])
      = Inl (ValueError ''cipher'')"
    by code_simp
  have len: "length ?c = 48" and np: "\<not> prefix TAG_SEPARATOR ?c" and ne: "TAG_SEPARATOR \<noteq> []"
    by code_simp+
  have nosep: "\<forall>j. \<not> prefix TAG_SEPARATOR (drop (ENCRYPTED_KEY_SIZE * j) ?c)"
  proof
    fix j
    show "\<not> prefix TAG_SEPARATOR (drop (ENCRYPTED_KEY_SIZE * j) ?c)"
    proof (cases j)
      case 0
      with np show ?thesis by simp
    next
      case (Suc j')
      with len have "drop (ENCRYPTED_KEY_SIZE * j) ?c = []"
        by (simp add: ENCRYPTED_KEY_SIZE_def)
      with ne show ?thesis by simp
    qed
  qed
  from decrypt_error_discrimination [OF reachable_revoked_8 n8, of ?c shift_cipher]
  have a: "decrypt shift_cipher ?st 8 ?c = Some (Inl KeyNotFound)"
    using none unfolding known_keys_8 try_keys_None_iff by blast
  from decrypt_error_discrimination [OF reachable_revoked_8 n8, of ?c50 shift_cipher]
  have e: "decrypt shift_cipher ?st 8 ?c50 = Some (Inl (ValueError ''cipher''))"
    using blocks50 none50 err50 unfolding known_keys_8 by blast
  from decrypt_error_discrimination [OF reachable_revoked_8 n12, of ?c shift_cipher]
  have b: "decrypt shift_cipher ?st 12 ?c = Some (Inl SeparatorNotFound)"
    using blocks hit nosep unfolding known_keys_8 by fastforce
  show ?thesis
    using reachable_revoked_8 n8 n12 a e b by (intro conjI)
qed

text \<open>
  C10, as the spec states it, at its own example: the engine of eight leaves
  encrypts a message and the stream is cut right after the separator. Device 8
  recovers the content key from the key block of the root and finds the separator
  with nothing after it; the cipher is then given the empty IV, and under a cipher
  that checks the length of the IV, as the library does, \<open>decrypt\<close> fails with the
  cipher's error before the unpadding step is reached. The same holds with 5 bytes
  after the separator.
\<close>

theorem stream_ending_at_separator_counterexample:
  "try_keys shift_cipher (take 48 (broadcast (engine 8) (bytes_of ''hello'')))
       (map node_keys [8, 4, 2, 1]) = Inr (Some (draws 0))
     \<and> drop 48 (take 59 (broadcast (engine 8) (bytes_of ''hello''))) = TAG_SEPARATOR
     \<and> decrypt shift_cipher (engine 8) 8 (take 59 (broadcast (engine 8) (bytes_of ''hello'')))
         = Some (Inl (ValueError ''cipher''))
     \<and> decrypt shift_cipher (engine 8) 8 (take 59 (broadcast (engine 8) (bytes_of ''hello'')))
         \<noteq> Some (Inl IndexError)
     \<and> length (drop 59 (take 64 (broadcast (engine 8) (bytes_of ''hello'')))) = 5
     \<and> decrypt shift_cipher (engine 8) 8 (take 64 (broadcast (engine 8) (bytes_of ''hello'')))
         = Some (Inl (ValueError ''cipher''))"
  by code_simp

lemma shift_cipher_decrypts_empty: "cbc_decrypts_empty shift_cipher"
  by (simp add: cbc_decrypts_empty_def shift_cipher_def)

theorem unpadding_out_of_range_witness:
  "get_known_keys (engine 8) 8 = Some (Inr (map node_keys [8, 4, 2, 1]))
     \<and> encrypt shift_cipher draws (engine 8) (bytes_of ''hello'')
         = Inr (broadcast (engine 8) (bytes_of ''hello''))
     \<and> take 75 (broadcast (engine 8) (bytes_of ''hello''))
         = take 48 (broadcast (engine 8) (bytes_of ''hello'')) @ TAG_SEPARATOR @ draws 2
     \<and> try_keys shift_cipher (take 48 (broadcast (engine 8) (bytes_of ''hello'')))
          (map node_keys [8, 4, 2, 1]) = Inr (Some (draws 0))
     \<and> length (draws 2) = 16 \<and> length (draws 0) = 16 \<and> cbc_decrypts_empty shift_cipher
     \<and> remove_padding [] = Inl IndexError
     \<and> decrypt shift_cipher (engine 8) 8 (take 75 (broadcast (engine 8) (bytes_of ''hello'')))
         = Some (Inl IndexError)"
proof -
  let ?c = "take 75 (broadcast (engine 8) (bytes_of ''hello''))"
  let ?b = "take 48 (broadcast (engine 8) (bytes_of ''hello''))"
  let ?ks = "map node_keys [8, 4, 2, 1]"
  have e: "encrypt shift_cipher draws (engine 8) (bytes_of ''hello'')
         = Inr (broadcast (engine 8) (bytes_of ''hello''))"
    by code_simp
  have c: "?c = ?b @ TAG_SEPARATOR @ draws 2"
    by code_simp
  have split: "key_blocks ?c = [] @ ?b # []"
    by code_simp
  have none: "\<forall>b' \<in> set []. try_keys shift_cipher b' ?ks = Inr None"
    by simp
  have hit: "try_keys shift_cipher ?b ?ks = Inr (Some (draws 0))"
    by code_simp
  have sep: "drop (ENCRYPTED_KEY_SIZE * length (key_blocks ?c)) ?c = TAG_SEPARATOR @ draws 2"
    by code_simp
  have len: "length (draws 2) = 16" "length (draws 0) = 16"
    by (simp_all add: draws_def)
  then have short: "length (draws 2) \<le> 16"
    by simp
  have all: "length (draws 2) = 16 \<and> length (draws 0) = 16 \<and> cbc_decrypts_empty shift_cipher"
    using len shift_cipher_decrypts_empty by (intro conjI)
  from unpadding_out_of_range [OF known_keys_8(3) split none hit sep short]
  have r: "remove_padding [] = Inl IndexError"
    and d: "decrypt shift_cipher (engine 8) 8 ?c = Some (Inl IndexError)"
    using all by blast+
  show ?thesis
    apply (insert known_keys_8(3) e c hit len shift_cipher_decrypts_empty r d)
    apply (intro conjI; assumption)
    done
qed

text \<open>
  C2, after two revocations: the engine of eight leaves with leaves 8 and 9 revoked
  has the cover \<open>(3, 5, 8, 9)\<close>, so \<open>encrypt\<close> emits a key block under the key of
  leaf 8, and the revoked device 8 recovers the message. The stand-in cipher never
  yields the marker under another node's key (\<open>shift_cipher_wrong_key\<close>): the key
  blocks of nodes 3 and 5 yield nothing, the one of node 8 yields the content key.
\<close>

theorem revoked_device_decrypts:
  "reachable node_keys (revoked (revoked (engine 8) 8) 9)
     \<and> 8 \<in> set_T (revoked (revoked (engine 8) 8) 9)
     \<and> S_cover (revoked (revoked (engine 8) 8) 9) = [3, 5, 8, 9]
     \<and> encrypt shift_cipher draws (revoked (revoked (engine 8) 8) 9) (bytes_of ''hello'')
         = Inr (broadcast (revoked (revoked (engine 8) 8) 9) (bytes_of ''hello''))
     \<and> map (\<lambda>b. try_keys shift_cipher b (map node_keys [8, 4, 2, 1]))
          (key_blocks (broadcast (revoked (revoked (engine 8) 8) 9) (bytes_of ''hello'')))
         = [Inr None, Inr None, Inr (Some (draws 0)), Inr None]
     \<and> decrypt shift_cipher (revoked (revoked (engine 8) 8) 9) 8
          (broadcast (revoked (revoked (engine 8) 8) 9) (bytes_of ''hello''))
         = Some (Inr (bytes_of ''hello''))"
proof -
  let ?st = "revoked (revoked (engine 8) 8) 9"
  have "encrypt shift_cipher draws ?st (bytes_of ''hello'')
         = Inr (broadcast ?st (bytes_of ''hello''))"
    by code_simp
  moreover have "map (\<lambda>b. try_keys shift_cipher b (map node_keys [8, 4, 2, 1]))
          (key_blocks (broadcast ?st (bytes_of ''hello'')))
         = [Inr None, Inr None, Inr (Some (draws 0)), Inr None]"
    by code_simp
  moreover have "decrypt shift_cipher ?st 8 (broadcast ?st (bytes_of ''hello''))
         = Some (Inr (bytes_of ''hello''))"
    by code_simp
  ultimately show ?thesis
    using reachable_revoked_8_9 by (simp add: revoked_8_9)
qed

text \<open>
  C3, at a tree size that is not a power of two: the fresh engine \<open>AACS(3)\<close> has
  the empty cover, so the stream \<open>encrypt\<close> returns starts with the separator and
  holds no key block, and the valid device 4 fails with KeyNotFound.
\<close>

theorem valid_device_of_three_fails:
  "reachable node_keys (engine 3)
     \<and> set_T (engine 3) = {} \<and> 4 \<in> set_S (engine 3) \<and> S_cover (engine 3) = []
     \<and> encrypt shift_cipher draws (engine 3) (bytes_of ''hello'')
         = Inr (broadcast (engine 3) (bytes_of ''hello''))
     \<and> prefix TAG_SEPARATOR (broadcast (engine 3) (bytes_of ''hello''))
     \<and> decrypt shift_cipher (engine 3) 4 (broadcast (engine 3) (bytes_of ''hello''))
         = Some (Inl KeyNotFound)"
proof -
  have "reachable node_keys (engine 3)"
    by (rule reachable_init [OF engine_3(1)])
  moreover have "encrypt shift_cipher draws (engine 3) (bytes_of ''hello'')
         = Inr (broadcast (engine 3) (bytes_of ''hello''))"
    by code_simp
  moreover have "prefix TAG_SEPARATOR (broadcast (engine 3) (bytes_of ''hello''))"
    by code_simp
  moreover have "decrypt shift_cipher (engine 3) 4 (broadcast (engine 3) (bytes_of ''hello''))
         = Some (Inl KeyNotFound)"
    by code_simp
  ultimately show ?thesis
    by (simp add: engine_3)
qed

section \<open>Tree sizes that are powers of two\<close>

text \<open>
  For a tree size that is a power of two the leaves are as many as \<open>n\<close>, and the
  fresh engine has the cover \<open>(1,)\<close>.
\<close>

lemma cover_of_fresh_engine_power_of_two:
  "\<exists>st. AACS_init keys (2 ^ t) = Some (Inr st) \<and> set_T st = {} \<and> S_cover st = [1]"
proof -
  let ?n = "(2::int) ^ t"
  have n: "0 < ?n" by simp
  have "nat ?n = 2 ^ t" by (simp add: nat_power_eq)
  then have c: "ceil_log2 (nat ?n) = t" by (simp only: ceil_log2_power)
  have "int (card {(2::int) ^ t..2 * 2 ^ t - 1}) = 2 ^ t"
    by simp
  then show ?thesis
    using n by (simp add: AACS_init_def BinaryTree_init_def Let_def c get_S_cover_def
        BinaryTree.extend_def AACS.fields_def get_leaves_def)
qed

end
